theory Spec2Isabelle
  imports Complex_Main "HOL-Library.Product_Lexorder" "HOL-Library.Sublist"
begin

section \<open>Data model\<close>

text \<open>
  A text is a list of characters with the code points U+0000 to U+00FF; the character
  classes below are those that Python gives on this range. Offsets are Python integers
  (\<open>str.find\<close> answers \<open>-1\<close>), confidences are exact rationals standing for the float
  values: the code only adds, multiplies and compares them.
\<close>

datatype PIIType =
  CREDIT_CARD | SSN | EMAIL | PHONE | PERSON_NAME | ADDRESS | IP_ADDRESS
| DATE_OF_BIRTH | PASSPORT | DRIVER_LICENSE | BANK_ACCOUNT | TAX_ID

text \<open>The \<open>.value\<close> of an enumeration member.\<close>

fun pii_type_value :: "PIIType \<Rightarrow> string" where
  "pii_type_value CREDIT_CARD = ''CREDIT_CARD''"
| "pii_type_value SSN = ''SSN''"
| "pii_type_value EMAIL = ''EMAIL''"
| "pii_type_value PHONE = ''PHONE''"
| "pii_type_value PERSON_NAME = ''PERSON_NAME''"
| "pii_type_value ADDRESS = ''ADDRESS''"
| "pii_type_value IP_ADDRESS = ''IP_ADDRESS''"
| "pii_type_value DATE_OF_BIRTH = ''DATE_OF_BIRTH''"
| "pii_type_value PASSPORT = ''PASSPORT''"
| "pii_type_value DRIVER_LICENSE = ''DRIVER_LICENSE''"
| "pii_type_value BANK_ACCOUNT = ''BANK_ACCOUNT''"
| "pii_type_value TAX_ID = ''TAX_ID''"

text \<open>The members of the enumeration, in declaration order (\<open>for pii_type in PIIType\<close>).\<close>

definition all_pii_types :: "PIIType list" where
  "all_pii_types = [CREDIT_CARD, SSN, EMAIL, PHONE, PERSON_NAME, ADDRESS, IP_ADDRESS,
     DATE_OF_BIRTH, PASSPORT, DRIVER_LICENSE, BANK_ACCOUNT, TAX_ID]"

datatype MaskingStrategy = FULL | PARTIAL | REDACT | HASH | TOKENIZE

datatype error = ValueError | IndexError

text \<open>The dataclass \<open>PIIMatch\<close> of utils.py; \<open>value\<close>, \<open>start\<close>, \<open>end\<close> and \<open>context\<close> carry a prefix.\<close>

record PIIMatch =
  pii_type :: string
  m_value :: string
  m_start :: int
  m_end :: int
  confidence :: rat
  masked_value :: string
  m_context :: "string option"

section \<open>Overlap resolution (utils.py)\<close>

definition has_overlap :: "PIIMatch \<Rightarrow> PIIMatch \<Rightarrow> bool" where
  "has_overlap match1 match2 \<longleftrightarrow> m_start match1 < m_end match2 \<and> m_end match1 > m_start match2"

text \<open>
  The inner loop of \<open>resolve_overlaps\<close> stops at the first selected match that overlaps
  the candidate (\<open>break\<close>); \<open>first_overlap\<close> is that match.
\<close>

fun first_overlap :: "PIIMatch \<Rightarrow> PIIMatch list \<Rightarrow> PIIMatch option" where
  "first_overlap match [] = None"
| "first_overlap match (existing # rest) =
     (if has_overlap match existing then Some existing else first_overlap match rest)"

text \<open>One round of the outer loop; \<open>list.remove\<close> deletes the first equal element.\<close>

definition resolve_step :: "PIIMatch list \<Rightarrow> PIIMatch \<Rightarrow> PIIMatch list" where
  "resolve_step result match =
     (case first_overlap match result of
        None \<Rightarrow> result @ [match]
      | Some existing \<Rightarrow>
          if confidence match > confidence existing
          then remove1 existing result @ [match]
          else result)"

definition resolve_overlaps :: "PIIMatch list \<Rightarrow> PIIMatch list" where
  "resolve_overlaps matches =
     (if matches = [] then []
      else
        let sorted_matches = sort_key (\<lambda>x. (m_start x, - confidence x)) matches;
            result = foldl resolve_step [] sorted_matches
        in sort_key m_start result)"

text \<open>Pairwise disjointness of the half-open spans, and ascending starts.\<close>

definition m_span :: "PIIMatch \<Rightarrow> int set" where
  "m_span m = {m_start m ..< m_end m}"

definition non_overlapping :: "PIIMatch list \<Rightarrow> bool" where
  "non_overlapping ms \<longleftrightarrow>
     (\<forall>i < length ms. \<forall>j < length ms. i \<noteq> j \<longrightarrow> m_span (ms ! i) \<inter> m_span (ms ! j) = {})"

definition sorted_by_start :: "PIIMatch list \<Rightarrow> bool" where
  "sorted_by_start ms \<longleftrightarrow> sorted (map m_start ms)"

text \<open>
  The invariant of the outer loop: the selected matches are pairwise free of overlap and
  ascending by start.
\<close>

definition sel_inv :: "PIIMatch list \<Rightarrow> bool" where
  "sel_inv rs \<longleftrightarrow> sorted_wrt (\<lambda>a b. \<not> has_overlap a b) rs \<and> sorted (map m_start rs)"

section \<open>Strings as Python reads them\<close>

text \<open>
  The whitespace of \<open>str.isspace\<close>, \<open>str.split\<close>, \<open>str.strip\<close> and of the regular
  expression class for whitespace; \<open>int\<close> strips a smaller set, without U+001C to U+001F.
\<close>

definition whitespace_chars :: "char list" where
  "whitespace_chars = [CHR 0x09, CHR 0x0A, CHR 0x0B, CHR 0x0C, CHR 0x0D,
     CHR 0x1C, CHR 0x1D, CHR 0x1E, CHR 0x1F, CHR 0x20, CHR 0x85, CHR 0xA0]"

definition int_whitespace_chars :: "char list" where
  "int_whitespace_chars = [CHR 0x09, CHR 0x0A, CHR 0x0B, CHR 0x0C, CHR 0x0D,
     CHR 0x20, CHR 0x85, CHR 0xA0]"

text \<open>
  The decimal digits are what the regular expression class for digits matches and what
  \<open>int\<close> reads. \<open>str.isdigit\<close> is also true of the superscripts U+00B2, U+00B3 and
  U+00B9, which \<open>int\<close> refuses.
\<close>

definition digit_chars :: "char list" where
  "digit_chars = ''0123456789''"

definition superscript_chars :: "char list" where
  "superscript_chars = [CHR 0xB2, CHR 0xB3, CHR 0xB9]"

definition upper_chars :: "char list" where
  "upper_chars = ''ABCDEFGHIJKLMNOPQRSTUVWXYZ''"

definition lower_chars :: "char list" where
  "lower_chars = ''abcdefghijklmnopqrstuvwxyz''"

definition is_space :: "char \<Rightarrow> bool" where
  "is_space c \<longleftrightarrow> c \<in> set whitespace_chars"

definition is_decimal :: "char \<Rightarrow> bool" where
  "is_decimal c \<longleftrightarrow> c \<in> set digit_chars"

definition is_digit :: "char \<Rightarrow> bool" where
  "is_digit c \<longleftrightarrow> c \<in> set digit_chars \<or> c \<in> set superscript_chars"

definition code_within :: "nat \<Rightarrow> nat \<Rightarrow> char \<Rightarrow> bool" where
  "code_within lo hi c \<longleftrightarrow> lo \<le> of_char c \<and> (of_char c :: nat) \<le> hi"

text \<open>
  The upper-case letters are A to Z and U+00C0 to U+00DE without the multiplication
  sign; the lower-case letters are a to z, U+00AA, U+00B5, U+00BA and U+00DF to U+00FF
  without the division sign.
\<close>

definition is_upper :: "char \<Rightarrow> bool" where
  "is_upper c \<longleftrightarrow> c \<in> set upper_chars \<or> code_within 0xC0 0xD6 c \<or> code_within 0xD8 0xDE c"

definition is_lower :: "char \<Rightarrow> bool" where
  "is_lower c \<longleftrightarrow>
     c \<in> set lower_chars \<or> c \<in> set [CHR 0xAA, CHR 0xB5, CHR 0xBA] \<or>
     code_within 0xDF 0xF6 c \<or> code_within 0xF8 0xFF c"

text \<open>\<open>str.lower\<close> on one character: an upper-case letter moves up by 32.\<close>

definition char_lower :: "char \<Rightarrow> char" where
  "char_lower c = (if is_upper c then char_of (of_char c + (32 :: nat)) else c)"

text \<open>
  The one-to-one upper-case mapping that case-insensitive matching uses: a lower-case
  letter with an upper-case partner on this range moves down by 32.
\<close>

definition char_upper :: "char \<Rightarrow> char" where
  "char_upper c =
     (if c \<in> set lower_chars \<or> code_within 0xE0 0xF6 c \<or> code_within 0xF8 0xFE c
      then char_of (of_char c - (32 :: nat)) else c)"

text \<open>
  \<open>str.upper\<close> on one character. The sharp s becomes two letters. The upper-case forms of
  U+00B5 and U+00FF lie beyond U+00FF and cannot be written in this text type: the model
  keeps these two characters as they are, so the masked text of a name part that begins
  with one of them differs from the code's in that character.
\<close>

definition py_upper_char :: "char \<Rightarrow> string" where
  "py_upper_char c = (if c = CHR 0xDF then ''SS'' else [char_upper c])"

definition py_lower :: "string \<Rightarrow> string" where
  "py_lower s = map char_lower s"

text \<open>\<open>str.isupper\<close>, \<open>str.islower\<close>: a cased character exists and none has the other case.\<close>

definition py_isupper :: "string \<Rightarrow> bool" where
  "py_isupper s \<longleftrightarrow> list_ex is_upper s \<and> \<not> list_ex is_lower s"

definition py_islower :: "string \<Rightarrow> bool" where
  "py_islower s \<longleftrightarrow> list_ex is_lower s \<and> \<not> list_ex is_upper s"

text \<open>\<open>str.isdigit\<close> on a whole string.\<close>

definition py_isdigit :: "string \<Rightarrow> bool" where
  "py_isdigit s \<longleftrightarrow> s \<noteq> [] \<and> list_all is_digit s"

text \<open>
  \<open>s[a:b]\<close> for integers: a negative index counts from the end, both are clipped to
  the string.
\<close>

definition clip_index :: "nat \<Rightarrow> int \<Rightarrow> nat" where
  "clip_index n i = (if i < 0 then nat (int n + i) else min n (nat i))"

definition py_slice :: "'a list \<Rightarrow> int \<Rightarrow> int \<Rightarrow> 'a list" where
  "py_slice xs a b =
     (let lo = clip_index (length xs) a; hi = clip_index (length xs) b
      in take (hi - lo) (drop lo xs))"

text \<open>\<open>s[a:]\<close> and \<open>s[:b]\<close>.\<close>

definition py_slice_from :: "'a list \<Rightarrow> int \<Rightarrow> 'a list" where
  "py_slice_from xs a = drop (clip_index (length xs) a) xs"

definition py_slice_to :: "'a list \<Rightarrow> int \<Rightarrow> 'a list" where
  "py_slice_to xs b = take (clip_index (length xs) b) xs"

text \<open>\<open>str.find\<close>: the least index where the argument occurs, or \<open>-1\<close>.\<close>

fun find_from :: "string \<Rightarrow> string \<Rightarrow> nat \<Rightarrow> int" where
  "find_from sub [] i = (if sub = [] then int i else - 1)"
| "find_from sub (c # cs) i =
     (if prefix sub (c # cs) then int i else find_from sub cs (Suc i))"

definition py_find :: "string \<Rightarrow> string \<Rightarrow> int" where
  "py_find s sub = find_from sub s 0"

text \<open>\<open>sub in s\<close>.\<close>

definition py_in :: "string \<Rightarrow> string \<Rightarrow> bool" where
  "py_in sub s \<longleftrightarrow> py_find s sub \<noteq> - 1"

text \<open>\<open>str.split()\<close>: the maximal runs of characters that are not whitespace.\<close>

fun split_ws :: "string \<Rightarrow> string \<Rightarrow> string list" where
  "split_ws cur [] = (if cur = [] then [] else [cur])"
| "split_ws cur (c # cs) =
     (if is_space c then (if cur = [] then split_ws [] cs else cur # split_ws [] cs)
      else split_ws (cur @ [c]) cs)"

definition py_split :: "string \<Rightarrow> string list" where
  "py_split s = split_ws [] s"

text \<open>
  \<open>s.split(sep)\<close> for a one-character separator and \<open>re.split\<close> on a one-character
  class: cut at every separator, keeping empty pieces.
\<close>

fun split_where :: "(char \<Rightarrow> bool) \<Rightarrow> string \<Rightarrow> string list" where
  "split_where P [] = [[]]"
| "split_where P (c # cs) =
     (if P c then [] # split_where P cs
      else (case split_where P cs of
              [] \<Rightarrow> [[c]]
            | p # ps \<Rightarrow> (c # p) # ps))"

definition py_strip :: "char list \<Rightarrow> string \<Rightarrow> string" where
  "py_strip chars s =
     rev (dropWhile (\<lambda>c. c \<in> set chars) (rev (dropWhile (\<lambda>c. c \<in> set chars) s)))"

fun py_join :: "string \<Rightarrow> string list \<Rightarrow> string" where
  "py_join sep [] = []"
| "py_join sep [p] = p"
| "py_join sep (p # q # ps) = p @ sep @ py_join sep (q # ps)"

text \<open>
  \<open>int(s)\<close>: surrounding whitespace is dropped, a sign may lead, and the digits may be
  grouped by single underscores. \<open>None\<close> is the \<open>ValueError\<close>.
\<close>

definition digit_value :: "char \<Rightarrow> int" where
  "digit_value c = (case map_of (zip digit_chars [0, 1, 2, 3, 4, 5, 6, 7, 8, 9]) c of
                      Some v \<Rightarrow> v | None \<Rightarrow> 0)"

fun well_grouped :: "string \<Rightarrow> bool" where
  "well_grouped [] = False"
| "well_grouped [c] = is_decimal c"
| "well_grouped (c # d # cs) =
     (is_decimal c \<and> (if d = CHR ''_'' then well_grouped cs else well_grouped (d # cs)))"

definition digits_value :: "string \<Rightarrow> int" where
  "digits_value s = foldl (\<lambda>a c. 10 * a + digit_value c) 0 (filter is_decimal s)"

definition py_int :: "string \<Rightarrow> int option" where
  "py_int s =
     (let t = py_strip int_whitespace_chars s;
          neg = (case t of [] \<Rightarrow> False | c # _ \<Rightarrow> c = CHR ''-'');
          body = (case t of [] \<Rightarrow> [] | c # r \<Rightarrow> if c = CHR ''+'' \<or> c = CHR ''-'' then r else t)
      in if well_grouped body
         then Some (if neg then - digits_value body else digits_value body)
         else None)"

text \<open>Decimal rendering of a counter, and \<open>{n:04d}\<close>.\<close>

fun nat_digits :: "nat \<Rightarrow> string" where
  "nat_digits n =
     (if n < 10 then [digit_chars ! n] else nat_digits (n div 10) @ [digit_chars ! (n mod 10)])"

definition format_04d :: "nat \<Rightarrow> string" where
  "format_04d n = (let d = nat_digits n in replicate (4 - length d) CHR ''0'' @ d)"

text \<open>Sequencing of computations that may raise.\<close>

definition bind_e :: "error + 'a \<Rightarrow> ('a \<Rightarrow> error + 'b) \<Rightarrow> error + 'b" where
  "bind_e x f = (case x of Inl e \<Rightarrow> Inl e | Inr v \<Rightarrow> f v)"

definition int_or_raise :: "string \<Rightarrow> error + int" where
  "int_or_raise s = (case py_int s of None \<Rightarrow> Inl ValueError | Some v \<Rightarrow> Inr v)"

fun map_e :: "('a \<Rightarrow> error + 'b) \<Rightarrow> 'a list \<Rightarrow> error + 'b list" where
  "map_e f [] = Inr []"
| "map_e f (x # xs) = bind_e (f x) (\<lambda>y. bind_e (map_e f xs) (\<lambda>ys. Inr (y # ys)))"

section \<open>Validators (validator.py)\<close>

text \<open>The rounds of the Luhn loop over \<open>enumerate(reversed(digits))\<close>.\<close>

definition luhn_round :: "int \<Rightarrow> nat \<times> int \<Rightarrow> int" where
  "luhn_round checksum p =
     (case p of (i, digit) \<Rightarrow>
        if i mod 2 = 1
        then (let doubled = digit * 2
              in checksum + (if doubled > 9 then doubled - 9 else doubled))
        else checksum + digit)"

definition validate_credit_card :: "string \<Rightarrow> error + bool" where
  "validate_credit_card card_number =
     bind_e (map_e (\<lambda>d. int_or_raise [d]) (filter is_digit card_number)) (\<lambda>digits.
       if length digits < 13 \<or> length digits > 19 then Inr False
       else Inr (foldl luhn_round 0 (enumerate 0 (rev digits)) mod 10 = 0))"

text \<open>\<open>re.sub\<close> deleting every whitespace character and every dash.\<close>

definition strip_separators :: "string \<Rightarrow> string" where
  "strip_separators s = filter (\<lambda>c. \<not> (is_space c \<or> c = CHR ''-'')) s"

definition validate_ssn :: "string \<Rightarrow> error + bool" where
  "validate_ssn ssn =
     (let clean_ssn = strip_separators ssn
      in if length clean_ssn \<noteq> 9 \<or> \<not> py_isdigit clean_ssn then Inr False
         else
           bind_e (int_or_raise (py_slice_to clean_ssn 3)) (\<lambda>area.
           bind_e (int_or_raise (py_slice clean_ssn 3 5)) (\<lambda>group.
           bind_e (int_or_raise (py_slice_from clean_ssn 5)) (\<lambda>serial.
             if area = 0 \<or> area = 666 \<or> area \<ge> 900 then Inr False
             else if group = 0 \<or> serial = 0 then Inr False
             else if 734 \<le> area \<and> area \<le> 749 then Inr False
             else Inr True))))"

definition validate_email :: "string \<Rightarrow> bool" where
  "validate_email email =
     (if length email > 254 then False
      else
        (case split_where (\<lambda>c. c = CHR ''@'') email of
           [local, domain] \<Rightarrow>
             if length local = 0 \<or> length local > 64 then False
             else if length domain = 0 \<or> length domain > 253 then False
             else if CHR ''.'' \<notin> set domain then False
             else if list_ex (\<lambda>part. length part = 0) (split_where (\<lambda>c. c = CHR ''.'') domain)
               then False
             else True
         | _ \<Rightarrow> False))"

definition validate_phone :: "string \<Rightarrow> error + bool" where
  "validate_phone phone =
     (let digits = filter is_digit phone
      in if length digits = 10
         then bind_e (int_or_raise (py_slice_to digits 3)) (\<lambda>area_code.
                if area_code < 200 \<or> area_code \<in> set [911, 988] then Inr False
                else Inr True)
         else if 11 \<le> length digits \<and> length digits \<le> 15 then Inr True
         else Inr False)"

text \<open>The loop over the octets; a \<open>ValueError\<close> is caught and answers \<open>False\<close>.\<close>

fun ip_parts_ok :: "string list \<Rightarrow> bool" where
  "ip_parts_ok [] = True"
| "ip_parts_ok (part # parts) =
     (case py_int part of
        None \<Rightarrow> False
      | Some num \<Rightarrow> if num < 0 \<or> num > 255 then False else ip_parts_ok parts)"

definition validate_ip_address :: "string \<Rightarrow> bool" where
  "validate_ip_address ip =
     (let parts = split_where (\<lambda>c. c = CHR ''.'') ip
      in if length parts \<noteq> 4 then False else ip_parts_ok parts)"

text \<open>
  The second loop of \<open>validate_date_of_birth\<close>: every part of at most two characters
  is read as a day or month number; the other parts are passed over.
\<close>

fun day_month_ok :: "string list \<Rightarrow> bool" where
  "day_month_ok [] = True"
| "day_month_ok (part # parts) =
     (if length part \<le> 2
      then (case py_int part of
              None \<Rightarrow> False
            | Some val \<Rightarrow> if val < 1 \<or> val > 31 then False else day_month_ok parts)
      else day_month_ok parts)"

text \<open>
  The first loop takes the first part of length four as the year and leaves the loop
  (\<open>break\<close>); \<open>List.find\<close> is that search. Every \<open>ValueError\<close> is caught.
\<close>

definition validate_date_of_birth :: "string \<Rightarrow> bool" where
  "validate_date_of_birth dob =
     (let parts = split_where (\<lambda>c. c = CHR ''/'' \<or> c = CHR ''-'') dob
      in if length parts \<noteq> 3 then False
         else
           (case find (\<lambda>part. length part = 4) parts of
              None \<Rightarrow> False
            | Some part \<Rightarrow>
                (case py_int part of
                   None \<Rightarrow> False
                 | Some year \<Rightarrow>
                     if year < 1900 \<or> year > 2025 then False
                     else day_month_ok parts)))"

section \<open>Context validation and confidence (validator.py, utils.py)\<close>

definition name_negative_keywords :: "string list" where
  "name_negative_keywords = [''file'', ''folder'', ''document'', ''system'', ''server'',
     ''application'', ''program'', ''code'', ''variable'']"

definition address_keywords :: "string list" where
  "address_keywords = [''address'', ''located'', ''live'', ''office'', ''building'',
     ''suite'', ''floor'', ''unit'', ''apt'', ''apartment'']"

definition context_window :: "string \<Rightarrow> int \<Rightarrow> int \<Rightarrow> int \<Rightarrow> string" where
  "context_window text start end' w =
     (let before = py_lower (py_slice text (max 0 (start - w)) start);
          after = py_lower (py_slice text end' (min (int (length text)) (end' + w)))
      in before @ '' '' @ after)"

text \<open>
  The name check looks for the negative keywords only: the source also computes whether a
  positive keyword occurs, and does not use the answer.
\<close>

definition is_likely_name_context :: "string \<Rightarrow> int \<Rightarrow> int \<Rightarrow> bool" where
  "is_likely_name_context text start end' =
     (let context = context_window text start end' 20;
          has_negative = list_ex (\<lambda>kw. py_in kw context) name_negative_keywords
      in if has_negative then False else True)"

definition is_likely_address_context :: "string \<Rightarrow> int \<Rightarrow> int \<Rightarrow> bool" where
  "is_likely_address_context text start end' =
     (let context = context_window text start end' 30
      in list_ex (\<lambda>kw. py_in kw context) address_keywords)"

definition adjust_confidence :: "rat \<Rightarrow> bool \<Rightarrow> bool \<Rightarrow> bool \<Rightarrow> rat" where
  "adjust_confidence base_confidence context_match validation_passed length_appropriate =
     (let c1 = (if context_match then min 1 (base_confidence + 1 / 10) else base_confidence);
          c2 = (if \<not> validation_passed then c1 * (1 / 2) else c1);
          c3 = (if \<not> length_appropriate then c2 * (7 / 10) else c2)
      in max 0 (min 1 c3))"

definition is_capitalized_word :: "string \<Rightarrow> bool" where
  "is_capitalized_word word =
     (case word of
        [] \<Rightarrow> False
      | [c] \<Rightarrow> py_isupper [c]
      | c # rest \<Rightarrow> py_isupper [c] \<and> py_islower rest)"

section \<open>Regular expressions (the part of Python's \<open>re\<close> that the patterns use)\<close>

text \<open>
  A backtracking matcher. \<open>rmatch r ic s i\<close> lists the positions where a match of \<open>r\<close>
  that starts at \<open>i\<close> can end, in the order in which the backtracking engine tries
  them: the head of the list is the match the engine reports. \<open>ic\<close> is the flag
  \<open>re.IGNORECASE\<close>. Repetition is greedy. No pattern of this program repeats an
  expression that can match the empty string, so a round of a repetition that consumes
  nothing is not continued.
\<close>

datatype regex =
  Cls "char list"
| Eps
| Seq regex regex
| Alt regex regex
| Rep nat "nat option" regex
| NegLook regex
| WordB
| Bol
| Eol

text \<open>
  The word characters of the word boundary: letters, the characters of \<open>str.isdigit\<close>, the
  underscore and the three fractions U+00BC to U+00BE.
\<close>

definition is_word_char :: "char \<Rightarrow> bool" where
  "is_word_char c \<longleftrightarrow>
     is_digit c \<or> is_upper c \<or> is_lower c \<or> c = CHR ''_'' \<or>
     c \<in> set [CHR 0xBC, CHR 0xBD, CHR 0xBE]"

definition word_at :: "string \<Rightarrow> int \<Rightarrow> bool" where
  "word_at s i \<longleftrightarrow> 0 \<le> i \<and> i < int (length s) \<and> is_word_char (s ! nat i)"

definition cls_matches :: "bool \<Rightarrow> char list \<Rightarrow> char \<Rightarrow> bool" where
  "cls_matches ic cs c \<longleftrightarrow>
     c \<in> set cs \<or> (ic \<and> (char_lower c \<in> set cs \<or> char_upper c \<in> set cs))"

function rep_greedy :: "(nat \<Rightarrow> nat list) \<Rightarrow> nat \<Rightarrow> nat \<Rightarrow> nat option \<Rightarrow> nat \<Rightarrow> nat list" where
  "rep_greedy f n lo hi i =
     (if hi = Some 0 then [i]
      else concat (map (\<lambda>j. if i < j \<and> j \<le> n
                             then rep_greedy f n (lo - 1) (map_option (\<lambda>h. h - 1) hi) j
                             else []) (f i))
           @ (if lo = 0 then [i] else []))"
  by pat_completeness auto
termination
  by (relation "measure (\<lambda>(f, n, lo, hi, i). n - i)") auto

primrec rmatch :: "regex \<Rightarrow> bool \<Rightarrow> string \<Rightarrow> nat \<Rightarrow> nat list" where
  "rmatch (Cls cs) ic s i = (if i < length s \<and> cls_matches ic cs (s ! i) then [Suc i] else [])"
| "rmatch Eps ic s i = [i]"
| "rmatch (Seq a b) ic s i = concat (map (rmatch b ic s) (rmatch a ic s i))"
| "rmatch (Alt a b) ic s i = rmatch a ic s i @ rmatch b ic s i"
| "rmatch (Rep lo hi r) ic s i = rep_greedy (rmatch r ic s) (length s) lo hi i"
| "rmatch (NegLook r) ic s i = (if rmatch r ic s i = [] then [i] else [])"
| "rmatch WordB ic s i = (if word_at s (int i - 1) \<noteq> word_at s (int i) then [i] else [])"
| "rmatch Bol ic s i = (if i = 0 then [i] else [])"
| "rmatch Eol ic s i =
     (if i = length s \<or> (Suc i = length s \<and> s ! i = CHR 0x0A) then [i] else [])"

text \<open>
  \<open>finditer\<close>: the leftmost match from the current position, then on from its end. The
  spans are pairs (start, end).
\<close>

function finditer_from :: "regex \<Rightarrow> bool \<Rightarrow> string \<Rightarrow> nat \<Rightarrow> (nat \<times> nat) list" where
  "finditer_from r ic s pos =
     (if pos > length s then []
      else (case rmatch r ic s pos of
              [] \<Rightarrow> finditer_from r ic s (Suc pos)
            | e # _ \<Rightarrow> (pos, e) # finditer_from r ic s (if pos < e then e else Suc pos)))"
  by pat_completeness auto
termination
  by (relation "measure (\<lambda>(r, ic, s, pos). Suc (length s) - pos)") auto

definition finditer :: "regex \<Rightarrow> bool \<Rightarrow> string \<Rightarrow> (nat \<times> nat) list" where
  "finditer r ic s = finditer_from r ic s 0"

text \<open>\<open>re.match\<close>: a match that starts at position 0.\<close>

definition re_match :: "regex \<Rightarrow> string \<Rightarrow> bool" where
  "re_match r s \<longleftrightarrow> rmatch r False s 0 \<noteq> []"

text \<open>Abbreviations for writing the patterns down.\<close>

definition re_seqs :: "regex list \<Rightarrow> regex" where
  "re_seqs rs = foldr Seq rs Eps"

definition re_alts :: "regex list \<Rightarrow> regex" where
  "re_alts rs = foldr Alt rs (Cls [])"

definition re_lit :: "string \<Rightarrow> regex" where
  "re_lit s = re_seqs (map (\<lambda>c. Cls [c]) s)"

definition re_digit :: regex where
  "re_digit = Cls digit_chars"

definition re_times :: "nat \<Rightarrow> regex \<Rightarrow> regex" where
  "re_times n r = Rep n (Some n) r"

definition re_between :: "nat \<Rightarrow> nat \<Rightarrow> regex \<Rightarrow> regex" where
  "re_between lo hi r = Rep lo (Some hi) r"

definition re_opt :: "regex \<Rightarrow> regex" where
  "re_opt r = Rep 0 (Some 1) r"

definition re_plus :: "regex \<Rightarrow> regex" where
  "re_plus r = Rep 1 None r"

definition re_star :: "regex \<Rightarrow> regex" where
  "re_star r = Rep 0 None r"

text \<open>The optional separator of the card and number patterns: one whitespace or a dash.\<close>

definition re_sep :: regex where
  "re_sep = re_opt (Cls (whitespace_chars @ ''-''))"


section \<open>The pattern registry (patterns.py)\<close>

record PIIPattern =
  pat_type :: PIIType
  pattern :: regex
  pat_confidence :: rat
  description :: string
  requires_validation :: bool

definition four_digit_groups :: regex where
  "four_digit_groups = re_seqs [re_sep, re_times 4 re_digit, re_sep, re_times 4 re_digit,
     re_sep, re_times 4 re_digit, WordB]"

definition visa_pattern :: regex where
  "visa_pattern = re_seqs [WordB, re_lit ''4'', re_times 3 re_digit, four_digit_groups]"

definition mastercard_pattern :: regex where
  "mastercard_pattern =
     re_seqs [WordB, re_lit ''5'', Cls ''12345'', re_times 2 re_digit, four_digit_groups]"

definition amex_pattern :: regex where
  "amex_pattern = re_seqs [WordB, re_lit ''3'', Cls ''47'', re_times 2 re_digit,
     re_sep, re_times 6 re_digit, re_sep, re_times 5 re_digit, WordB]"

definition discover_pattern :: regex where
  "discover_pattern = re_seqs [WordB, re_lit ''6'',
     re_alts [re_lit ''011'', Seq (re_lit ''5'') (re_times 2 re_digit)], four_digit_groups]"

definition ssn_area_guard :: regex where
  "ssn_area_guard =
     NegLook (re_alts [re_lit ''000'', re_lit ''666'', Seq (re_lit ''9'') (re_times 2 re_digit)])"

definition ssn_sep_pattern :: regex where
  "ssn_sep_pattern = re_seqs [WordB, ssn_area_guard, re_times 3 re_digit, re_sep,
     NegLook (re_lit ''00''), re_times 2 re_digit, re_sep,
     NegLook (re_lit ''0000''), re_times 4 re_digit, WordB]"

definition ssn_plain_pattern :: regex where
  "ssn_plain_pattern = re_seqs [WordB, ssn_area_guard, re_times 3 re_digit,
     NegLook (re_lit ''00''), re_times 2 re_digit,
     NegLook (re_lit ''0000''), re_times 4 re_digit, WordB]"

definition email_pattern :: regex where
  "email_pattern = re_seqs [WordB,
     re_plus (Cls (upper_chars @ lower_chars @ digit_chars @ ''._%+-'')),
     re_lit ''@'',
     re_plus (Cls (upper_chars @ lower_chars @ digit_chars @ ''.-'')),
     re_lit ''.'',
     Rep 2 None (Cls (upper_chars @ ''|'' @ lower_chars)),
     WordB]"

definition us_phone_pattern :: regex where
  "us_phone_pattern = re_seqs [WordB,
     re_opt (re_seqs [re_opt (re_lit ''+''), re_lit ''1'', re_sep]),
     re_opt (re_lit ''(''), re_times 3 re_digit, re_opt (re_lit '')''), re_sep,
     re_times 3 re_digit, re_sep, re_times 4 re_digit, WordB]"

definition intl_phone_pattern :: regex where
  "intl_phone_pattern = re_seqs [WordB,
     re_opt (re_seqs [re_lit ''+'', re_between 1 3 re_digit, re_sep]),
     re_between 2 4 re_digit, re_sep, re_between 3 4 re_digit, re_sep,
     re_between 3 4 re_digit, WordB]"

definition octet :: regex where
  "octet = re_alts [Seq (re_lit ''25'') (Cls ''012345''),
     re_seqs [re_lit ''2'', Cls ''01234'', re_digit],
     re_seqs [re_opt (Cls ''01''), re_digit, re_opt re_digit]]"

definition ip_pattern :: regex where
  "ip_pattern = re_seqs [WordB, re_times 3 (Seq octet (re_lit ''.'')), octet, WordB]"

definition month_part :: regex where
  "month_part = re_alts [Seq (re_lit ''0'') (Cls ''123456789''), Seq (re_lit ''1'') (Cls ''012'')]"

definition day_part :: regex where
  "day_part = re_alts [Seq (re_lit ''0'') (Cls ''123456789''), Seq (Cls ''12'') re_digit,
     Seq (re_lit ''3'') (Cls ''01'')]"

definition year_part :: regex where
  "year_part = Seq (re_alts [re_lit ''19'', re_lit ''20'']) (re_times 2 re_digit)"

definition dob_mdy_pattern :: regex where
  "dob_mdy_pattern =
     re_seqs [WordB, month_part, Cls ''/-'', day_part, Cls ''/-'', year_part, WordB]"

definition dob_dmy_pattern :: regex where
  "dob_dmy_pattern =
     re_seqs [WordB, day_part, Cls ''/-'', month_part, Cls ''/-'', year_part, WordB]"

definition passport_pattern :: regex where
  "passport_pattern = re_seqs [WordB, re_between 1 2 (Cls upper_chars), re_between 6 9 re_digit, WordB]"

definition license_letter_pattern :: regex where
  "license_letter_pattern = re_seqs [WordB, Cls upper_chars, re_between 7 8 re_digit, WordB]"

definition license_digits_pattern :: regex where
  "license_digits_pattern = re_seqs [WordB, re_times 9 re_digit, WordB]"

definition bank_account_pattern :: regex where
  "bank_account_pattern = re_seqs [WordB, re_between 8 17 re_digit, WordB]"

definition tax_id_pattern :: regex where
  "tax_id_pattern =
     re_seqs [WordB, re_times 2 re_digit, re_opt (re_lit ''-''), re_times 7 re_digit, WordB]"

definition mk_pattern :: "PIIType \<Rightarrow> regex \<Rightarrow> rat \<Rightarrow> string \<Rightarrow> bool \<Rightarrow> PIIPattern" where
  "mk_pattern t r c d v =
     \<lparr>pat_type = t, pattern = r, pat_confidence = c, description = d, requires_validation = v\<rparr>"

definition PATTERN_REGISTRY :: "PIIPattern list" where
  "PATTERN_REGISTRY =
    [mk_pattern CREDIT_CARD visa_pattern (95 / 100) ''Visa credit card'' True,
     mk_pattern CREDIT_CARD mastercard_pattern (95 / 100) ''Mastercard'' True,
     mk_pattern CREDIT_CARD amex_pattern (95 / 100) ''American Express'' True,
     mk_pattern CREDIT_CARD discover_pattern (95 / 100) ''Discover card'' True,
     mk_pattern SSN ssn_sep_pattern (98 / 100) ''Social Security Number with separators'' True,
     mk_pattern SSN ssn_plain_pattern (98 / 100) ''Social Security Number without separators'' True,
     mk_pattern EMAIL email_pattern (99 / 100) ''Email address'' False,
     mk_pattern PHONE us_phone_pattern (85 / 100) ''US phone number'' False,
     mk_pattern PHONE intl_phone_pattern (80 / 100) ''International phone number'' False,
     mk_pattern IP_ADDRESS ip_pattern (90 / 100) ''IPv4 address'' False,
     mk_pattern DATE_OF_BIRTH dob_mdy_pattern (75 / 100) ''Date of birth MM/DD/YYYY'' False,
     mk_pattern DATE_OF_BIRTH dob_dmy_pattern (75 / 100) ''Date of birth DD/MM/YYYY'' False,
     mk_pattern PASSPORT passport_pattern (70 / 100) ''US Passport number'' False,
     mk_pattern DRIVER_LICENSE license_letter_pattern (65 / 100) ''Driver license (CA, TX, etc.)'' False,
     mk_pattern DRIVER_LICENSE license_digits_pattern (60 / 100) ''Driver license (FL, etc.)'' False,
     mk_pattern BANK_ACCOUNT bank_account_pattern (50 / 100) ''Bank account number'' False,
     mk_pattern TAX_ID tax_id_pattern (75 / 100) ''Tax identification number'' False]"

text \<open>
  The word lists of \<open>NamePatterns\<close> and \<open>AddressPatterns\<close>. The source holds them in
  sets; the street types are joined into one alternation, every alternative of which
  is followed by a word boundary, so the order of the alternatives does not change
  what the pattern matches.
\<close>

definition PREFIXES :: "string list" where
  "PREFIXES = [''mr'', ''mrs'', ''ms'', ''miss'', ''dr'', ''prof'', ''rev'',
     ''hon'', ''sir'', ''lord'', ''lady'', ''capt'', ''col'', ''gen'',
     ''lt'', ''sgt'', ''cpl'', ''pvt'', ''adm'', ''cmdr'', ''maj'']"

definition SUFFIXES :: "string list" where
  "SUFFIXES = [''jr'', ''sr'', ''ii'', ''iii'', ''iv'', ''v'', ''esq'', ''md'', ''phd'',
     ''dds'', ''jd'', ''cpa'', ''rn'', ''dvm'', ''do'', ''od'', ''pharmd'']"

definition COMMON_FIRST_NAMES :: "string list" where
  "COMMON_FIRST_NAMES = [''james'', ''john'', ''robert'', ''michael'', ''william'', ''david'',
     ''richard'', ''joseph'', ''thomas'', ''charles'', ''christopher'', ''daniel'',
     ''matthew'', ''anthony'', ''mark'', ''donald'', ''steven'', ''paul'',
     ''andrew'', ''joshua'', ''kenneth'', ''kevin'', ''brian'', ''george'',
     ''edward'', ''ronald'', ''timothy'', ''jason'', ''jeffrey'', ''ryan'',
     ''mary'', ''patricia'', ''jennifer'', ''linda'', ''barbara'', ''elizabeth'',
     ''susan'', ''jessica'', ''sarah'', ''karen'', ''nancy'', ''lisa'',
     ''betty'', ''margaret'', ''sandra'', ''ashley'', ''kimberly'', ''emily'',
     ''donna'', ''michelle'', ''dorothy'', ''carol'', ''amanda'', ''melissa'',
     ''deborah'', ''stephanie'', ''rebecca'', ''sharon'', ''laura'', ''cynthia'',
     ''kathleen'', ''amy'', ''angela'', ''shirley'', ''anna'', ''brenda'',
     ''pamela'', ''emma'', ''nicole'', ''helen'', ''samantha'', ''katherine'']"

definition STREET_TYPES :: "string list" where
  "STREET_TYPES = [''street'', ''st'', ''avenue'', ''ave'', ''road'', ''rd'', ''boulevard'',
     ''blvd'', ''lane'', ''ln'', ''drive'', ''dr'', ''court'', ''ct'', ''circle'',
     ''cir'', ''way'', ''place'', ''pl'', ''terrace'', ''ter'', ''parkway'', ''pkwy'',
     ''highway'', ''hwy'', ''trail'', ''path'', ''alley'', ''walk'', ''plaza'',
     ''square'', ''loop'', ''crescent'', ''creek'', ''crossing'', ''bend'']"

text \<open>The pattern that \<open>_detect_addresses\<close> builds; it is matched with \<open>re.IGNORECASE\<close>.\<close>

definition capital_word :: regex where
  "capital_word = Seq (Cls upper_chars) (re_plus (Cls lower_chars))"

definition address_pattern :: regex where
  "address_pattern = re_seqs [WordB, re_plus re_digit, re_plus (Cls whitespace_chars),
     capital_word, re_star (Seq (re_plus (Cls whitespace_chars)) capital_word),
     re_plus (Cls whitespace_chars), re_alts (map re_lit STREET_TYPES), WordB]"

text \<open>The passport check of the validator: one or two capitals, six to nine digits.\<close>

definition is_valid_passport :: "string \<Rightarrow> bool" where
  "is_valid_passport passport \<longleftrightarrow>
     re_match (re_seqs [Bol, re_between 1 2 (Cls upper_chars), re_between 6 9 re_digit, Eol]) passport"

section \<open>Masking (masking.py)\<close>

text \<open>
  The masker owns the default strategy and the token counter. The digest of
  \<open>hashlib.sha256\<close>, as a hexadecimal string, is a parameter \<open>hexdigest\<close> of every
  function that can reach the HASH strategy. The source encodes the value before it
  hashes it, and encoding raises on a lone surrogate; every text of this type can be
  encoded, so the digest is total here.
\<close>

record PIIMasker =
  default_strategy :: MaskingStrategy
  token_counter :: nat

definition PIIMasker_init :: "MaskingStrategy \<Rightarrow> PIIMasker" where
  "PIIMasker_init strategy = \<lparr>default_strategy = strategy, token_counter = 0\<rparr>"

fun mask_full :: "string \<Rightarrow> PIIType \<Rightarrow> string" where
  "mask_full v CREDIT_CARD = ''[CREDIT_CARD]''"
| "mask_full v SSN = ''[SSN]''"
| "mask_full v EMAIL = ''[EMAIL]''"
| "mask_full v PHONE = ''[PHONE]''"
| "mask_full v PERSON_NAME = ''[NAME]''"
| "mask_full v ADDRESS = ''[ADDRESS]''"
| "mask_full v IP_ADDRESS = ''[IP_ADDRESS]''"
| "mask_full v DATE_OF_BIRTH = ''[DATE_OF_BIRTH]''"
| "mask_full v PASSPORT = ''[PASSPORT]''"
| "mask_full v DRIVER_LICENSE = ''[DRIVER_LICENSE]''"
| "mask_full v BANK_ACCOUNT = ''[BANK_ACCOUNT]''"
| "mask_full v TAX_ID = ''[TAX_ID]''"

definition mask_credit_card :: "string \<Rightarrow> string" where
  "mask_credit_card card_number =
     (let clean = strip_separators card_number
      in if length clean < 4 then ''****''
         else ''****-****-****-'' @ py_slice_from clean (- 4))"

definition mask_ssn :: "string \<Rightarrow> string" where
  "mask_ssn ssn =
     (let clean = strip_separators ssn
      in if length clean < 4 then ''***-**-****''
         else ''***-**-'' @ py_slice_from clean (- 4))"

text \<open>\<open>s[0]\<close> and \<open>s[-1]\<close>; on the empty string they raise.\<close>

definition first_char :: "string \<Rightarrow> error + char" where
  "first_char s = (case s of [] \<Rightarrow> Inl IndexError | c # _ \<Rightarrow> Inr c)"

definition last_char :: "string \<Rightarrow> error + char" where
  "last_char s = (case rev s of [] \<Rightarrow> Inl IndexError | c # _ \<Rightarrow> Inr c)"

definition mask_email :: "string \<Rightarrow> error + string" where
  "mask_email email =
     (case split_where (\<lambda>c. c = CHR ''@'') email of
        [username, domain] \<Rightarrow>
          bind_e
            (if length username \<le> 2 then Inr ''***''
             else if length username \<le> 4
               then bind_e (first_char username) (\<lambda>f. Inr (f # ''***''))
             else bind_e (first_char username) (\<lambda>f.
                  bind_e (last_char username) (\<lambda>l. Inr (f # ''***'' @ [l]))))
            (\<lambda>masked_user. Inr (masked_user @ ''@'' @ domain))
      | _ \<Rightarrow> Inr ''[EMAIL]'')"

definition mask_phone :: "string \<Rightarrow> string" where
  "mask_phone phone =
     (let digits = filter is_digit phone
      in if length digits < 4 then ''[PHONE]''
         else ''***-***-'' @ py_slice_from digits (- 4))"

text \<open>
  The loop of \<open>_mask_name\<close>; both branches of the title test append the same text. A
  part is never empty, and the guard \<open>len(part) > 0\<close> is the case distinction here.
\<close>

definition mask_name_part :: "string \<Rightarrow> string list" where
  "mask_name_part part =
     (case part of
        [] \<Rightarrow> []
      | c # _ \<Rightarrow>
          if py_lower part \<in> set [''mr'', ''mrs'', ''ms'', ''dr'', ''prof'']
          then [py_upper_char c @ ''***'']
          else [py_upper_char c @ ''***''])"

definition mask_name :: "string \<Rightarrow> string" where
  "mask_name name =
     (let parts = py_split name
      in if length parts = 0 then ''[NAME]''
         else py_join '' '' (concat (map mask_name_part parts)))"

definition mask_bank_account :: "string \<Rightarrow> string" where
  "mask_bank_account account =
     (let clean = filter is_digit account
      in if length clean < 4 then ''****''
         else ''****'' @ py_slice_from clean (- 4))"

definition mask_partial :: "string \<Rightarrow> PIIType \<Rightarrow> error + string" where
  "mask_partial v t =
     (if t = CREDIT_CARD then Inr (mask_credit_card v)
      else if t = SSN then Inr (mask_ssn v)
      else if t = EMAIL then mask_email v
      else if t = PHONE then Inr (mask_phone v)
      else if t = PERSON_NAME then Inr (mask_name v)
      else if t = BANK_ACCOUNT then Inr (mask_bank_account v)
      else Inr (mask_full v t))"

definition mask_redact :: "string \<Rightarrow> string" where
  "mask_redact v = replicate (length v) CHR ''*''"

definition mask_hash :: "(string \<Rightarrow> string) \<Rightarrow> string \<Rightarrow> PIIType \<Rightarrow> string" where
  "mask_hash hexdigest v t =
     ''['' @ pii_type_value t @ '':'' @ py_slice_to (hexdigest v) 12 @ '']''"

definition mask_tokenize :: "PIIMasker \<Rightarrow> string \<Rightarrow> PIIType \<Rightarrow> string \<times> PIIMasker" where
  "mask_tokenize mk v t =
     (let mk' = mk\<lparr>token_counter := token_counter mk + 1\<rparr>
      in (''['' @ pii_type_value t @ ''_TOKEN_'' @ format_04d (token_counter mk') @ '']'', mk'))"

text \<open>\<open>strategy or self.default_strategy\<close>: every member of the enumeration is truthy.\<close>

definition mask :: "(string \<Rightarrow> string) \<Rightarrow> PIIMasker \<Rightarrow> string \<Rightarrow> PIIType \<Rightarrow>
    MaskingStrategy option \<Rightarrow> error + (string \<times> PIIMasker)" where
  "mask hexdigest mk v t strategy =
     (case (case strategy of None \<Rightarrow> default_strategy mk | Some s \<Rightarrow> s) of
        FULL \<Rightarrow> Inr (mask_full v t, mk)
      | PARTIAL \<Rightarrow> bind_e (mask_partial v t) (\<lambda>m. Inr (m, mk))
      | REDACT \<Rightarrow> Inr (mask_redact v, mk)
      | HASH \<Rightarrow> Inr (mask_hash hexdigest v t, mk)
      | TOKENIZE \<Rightarrow> Inr (mask_tokenize mk v t))"

text \<open>\<open>MaskingConfig\<close>: a dictionary from PII type to strategy.\<close>

type_synonym MaskingConfig = "PIIType \<rightharpoonup> MaskingStrategy"

definition MaskingConfig_init :: MaskingConfig where
  "MaskingConfig_init =
     [CREDIT_CARD \<mapsto> PARTIAL, SSN \<mapsto> PARTIAL, EMAIL \<mapsto> PARTIAL, PHONE \<mapsto> PARTIAL,
      PERSON_NAME \<mapsto> PARTIAL, ADDRESS \<mapsto> FULL, IP_ADDRESS \<mapsto> FULL, DATE_OF_BIRTH \<mapsto> FULL,
      PASSPORT \<mapsto> FULL, DRIVER_LICENSE \<mapsto> FULL, BANK_ACCOUNT \<mapsto> PARTIAL, TAX_ID \<mapsto> FULL]"

definition get_strategy :: "MaskingConfig \<Rightarrow> PIIType \<Rightarrow> MaskingStrategy" where
  "get_strategy strategies t = (case strategies t of None \<Rightarrow> FULL | Some s \<Rightarrow> s)"

definition set_strategy :: "MaskingConfig \<Rightarrow> PIIType \<Rightarrow> MaskingStrategy \<Rightarrow> MaskingConfig" where
  "set_strategy strategies t s = strategies(t \<mapsto> s)"

definition set_all_strategies :: "MaskingConfig \<Rightarrow> MaskingStrategy \<Rightarrow> MaskingConfig" where
  "set_all_strategies strategies s = foldl (\<lambda>m t. m(t \<mapsto> s)) strategies all_pii_types"

section \<open>The detector (detector.py)\<close>

text \<open>
  The statistics collector counts detections and processed texts. The processing time it
  also adds up is wall-clock time and is left out: no result of the detector reads it.
\<close>

record StatisticsCollector =
  total_detections :: nat
  detections_by_type :: "string \<rightharpoonup> nat"
  total_texts_processed :: nat

definition StatisticsCollector_init :: StatisticsCollector where
  "StatisticsCollector_init =
     \<lparr>total_detections = 0, detections_by_type = Map.empty, total_texts_processed = 0\<rparr>"

definition record_detection :: "StatisticsCollector \<Rightarrow> string \<Rightarrow> StatisticsCollector" where
  "record_detection stats t =
     stats\<lparr>total_detections := total_detections stats + 1,
           detections_by_type := (detections_by_type stats)
             (t \<mapsto> (case detections_by_type stats t of None \<Rightarrow> 0 | Some n \<Rightarrow> n) + 1)\<rparr>"

definition record_processing :: "StatisticsCollector \<Rightarrow> StatisticsCollector" where
  "record_processing stats = stats\<lparr>total_texts_processed := total_texts_processed stats + 1\<rparr>"

record PIIDetector =
  masker :: PIIMasker
  masking_config :: MaskingConfig
  enable_context_validation :: bool
  enable_strict_validation :: bool
  statistics :: "StatisticsCollector option"

definition PIIDetector_init :: "bool \<Rightarrow> bool \<Rightarrow> bool \<Rightarrow> PIIDetector" where
  "PIIDetector_init context_validation strict_validation collect_statistics =
     \<lparr>masker = PIIMasker_init PARTIAL,
      masking_config = MaskingConfig_init,
      enable_context_validation = context_validation,
      enable_strict_validation = strict_validation,
      statistics = (if collect_statistics then Some StatisticsCollector_init else None)\<rparr>"

definition set_masking_strategy :: "PIIDetector \<Rightarrow> PIIType \<Rightarrow> MaskingStrategy \<Rightarrow> PIIDetector" where
  "set_masking_strategy det t s = det\<lparr>masking_config := set_strategy (masking_config det) t s\<rparr>"

definition set_all_masking_strategies :: "PIIDetector \<Rightarrow> MaskingStrategy \<Rightarrow> PIIDetector" where
  "set_all_masking_strategies det s =
     det\<lparr>masking_config := set_all_strategies (masking_config det) s\<rparr>"

definition validate_match :: "string \<Rightarrow> PIIType \<Rightarrow> error + bool" where
  "validate_match v t =
     (if t = CREDIT_CARD then validate_credit_card v
      else if t = SSN then validate_ssn v
      else if t = EMAIL then Inr (validate_email v)
      else if t = PHONE then validate_phone v
      else if t = IP_ADDRESS then Inr (validate_ip_address v)
      else if t = DATE_OF_BIRTH then Inr (validate_date_of_birth v)
      else if t = PASSPORT then Inr (is_valid_passport v)
      else Inr True)"

definition calculate_confidence ::
    "bool \<Rightarrow> string \<Rightarrow> string \<Rightarrow> int \<Rightarrow> int \<Rightarrow> PIIType \<Rightarrow> rat \<Rightarrow> bool \<Rightarrow> rat" where
  "calculate_confidence context_validation text v start end' t base_confidence validation_passed =
     (let context_match =
            (if context_validation
             then (if t = PERSON_NAME then is_likely_name_context text start end'
                   else if t = ADDRESS then is_likely_address_context text start end'
                   else False)
             else False);
          length_appropriate =
            (if t = CREDIT_CARD
             then 13 \<le> length (strip_separators v) \<and> length (strip_separators v) \<le> 19
             else if t = SSN then length (strip_separators v) = 9
             else True)
      in adjust_confidence base_confidence context_match validation_passed length_appropriate)"

text \<open>
  The loops of the detector read the two switches and the masking configuration of the
  detector and change the masker only; they take the former as arguments
  (\<open>ctx\<close>, \<open>strict\<close>, \<open>cfg\<close>) and pass the latter on, beside the list of matches.
\<close>

text \<open>\<open>if pii_types and pattern_def.pii_type not in pii_types: continue\<close>\<close>

definition skipped :: "PIIType list option \<Rightarrow> PIIType \<Rightarrow> bool" where
  "skipped pii_types t \<longleftrightarrow> (case pii_types of None \<Rightarrow> False | Some ts \<Rightarrow> ts \<noteq> [] \<and> t \<notin> set ts)"

text \<open>\<open>pii_types is None or t in pii_types\<close>\<close>

definition requested :: "PIIType list option \<Rightarrow> PIIType \<Rightarrow> bool" where
  "requested pii_types t \<longleftrightarrow> (case pii_types of None \<Rightarrow> True | Some ts \<Rightarrow> t \<in> set ts)"

text \<open>The inner loop of \<open>_detect_pattern_based\<close>, over the spans that \<open>finditer\<close> gives.\<close>

fun scan_matches :: "(string \<Rightarrow> string) \<Rightarrow> bool \<Rightarrow> bool \<Rightarrow> MaskingConfig \<Rightarrow> string \<Rightarrow> PIIPattern \<Rightarrow>
    (nat \<times> nat) list \<Rightarrow> PIIMatch list \<times> PIIMasker \<Rightarrow> error + (PIIMatch list \<times> PIIMasker)" where
  "scan_matches hexdigest ctx strict cfg text pattern_def [] acc = Inr acc"
| "scan_matches hexdigest ctx strict cfg text pattern_def ((s, e) # rest) (matches, mk) =
     (let v = py_slice text (int s) (int e);
          start = int s;
          end' = int e
      in case (if requires_validation pattern_def \<and> strict
               then validate_match v (pat_type pattern_def) else Inr True) of
           Inl err \<Rightarrow> Inl err
         | Inr is_valid \<Rightarrow>
             if \<not> is_valid
             then scan_matches hexdigest ctx strict cfg text pattern_def rest (matches, mk)
             else
               (let conf = calculate_confidence ctx text v start end' (pat_type pattern_def)
                             (pat_confidence pattern_def) is_valid;
                    strategy = get_strategy cfg (pat_type pattern_def)
                in case mask hexdigest mk v (pat_type pattern_def) (Some strategy) of
                     Inl err \<Rightarrow> Inl err
                   | Inr (masked, mk') \<Rightarrow>
                       scan_matches hexdigest ctx strict cfg text pattern_def rest
                         (matches @ [\<lparr>pii_type = pii_type_value (pat_type pattern_def),
                                      m_value = v, m_start = start, m_end = end',
                                      confidence = conf, masked_value = masked,
                                      m_context = None\<rparr>], mk')))"

text \<open>The outer loop, over the compiled patterns.\<close>

fun scan_patterns :: "(string \<Rightarrow> string) \<Rightarrow> bool \<Rightarrow> bool \<Rightarrow> MaskingConfig \<Rightarrow> string \<Rightarrow>
    PIIType list option \<Rightarrow> PIIPattern list \<Rightarrow> PIIMatch list \<times> PIIMasker \<Rightarrow>
    error + (PIIMatch list \<times> PIIMasker)" where
  "scan_patterns hexdigest ctx strict cfg text pii_types [] acc = Inr acc"
| "scan_patterns hexdigest ctx strict cfg text pii_types (pattern_def # rest) acc =
     (if skipped pii_types (pat_type pattern_def)
      then scan_patterns hexdigest ctx strict cfg text pii_types rest acc
      else case scan_matches hexdigest ctx strict cfg text pattern_def
                  (finditer (pattern pattern_def) False text) acc of
             Inl err \<Rightarrow> Inl err
           | Inr acc' \<Rightarrow> scan_patterns hexdigest ctx strict cfg text pii_types rest acc')"

definition detect_pattern_based :: "(string \<Rightarrow> string) \<Rightarrow> PIIDetector \<Rightarrow> string \<Rightarrow>
    PIIType list option \<Rightarrow> error + (PIIMatch list \<times> PIIMasker)" where
  "detect_pattern_based hexdigest det text pii_types =
     scan_patterns hexdigest (enable_context_validation det) (enable_strict_validation det)
       (masking_config det) text pii_types PATTERN_REGISTRY ([], masker det)"

text \<open>The characters that \<open>strip('.,!?;:()[]{}')\<close> removes from both ends of a word.\<close>

definition punctuation :: "char list" where
  "punctuation = ''.,!?;:()[]{}''"

text \<open>
  \<open>_extract_name_sequence\<close>: the loop takes at most three further words, each a
  capitalized word or a name suffix. \<open>words[start_idx]\<close> raises beyond the list.
\<close>

function extract_loop :: "string list \<Rightarrow> nat \<Rightarrow> string list \<Rightarrow> nat \<Rightarrow> string list \<times> nat" where
  "extract_loop words start_idx name_parts i =
     (if i < length words \<and> i < start_idx + 4
      then (let word = py_strip punctuation (words ! i);
                word_lower = py_lower word
            in if is_capitalized_word word \<or> word_lower \<in> set SUFFIXES
               then extract_loop words start_idx (name_parts @ [words ! i]) (i + 1)
               else (name_parts, i))
      else (name_parts, i))"
  by pat_completeness auto
termination
  by (relation "measure (\<lambda>(words, start_idx, name_parts, i). start_idx + 4 - i)") auto

definition extract_name_sequence :: "string list \<Rightarrow> nat \<Rightarrow> error + (string list \<times> nat)" where
  "extract_name_sequence words start_idx =
     (if start_idx < length words
      then Inr (extract_loop words start_idx [words ! start_idx] (start_idx + 1))
      else Inl IndexError)"

text \<open>
  What both rules of \<open>_detect_names\<close> do with a candidate name: locate it with
  \<open>text.find\<close>, score it by its context (\<open>hi\<close> or \<open>lo\<close>), mask it with the masker's
  default strategy and append the match.
\<close>

definition name_candidate :: "(string \<Rightarrow> string) \<Rightarrow> bool \<Rightarrow> string \<Rightarrow> string \<Rightarrow> rat \<Rightarrow> rat \<Rightarrow>
    PIIMatch list \<times> PIIMasker \<Rightarrow> error + (PIIMatch list \<times> PIIMasker)" where
  "name_candidate hexdigest ctx text full_name hi lo acc =
     (case acc of (matches, mk) \<Rightarrow>
        let start_pos = py_find text full_name
        in if start_pos \<noteq> - 1
           then
             (let context_valid =
                    (if ctx
                     then is_likely_name_context text start_pos (start_pos + int (length full_name))
                     else True);
                  conf = (if context_valid then hi else lo)
              in case mask hexdigest mk full_name PERSON_NAME None of
                   Inl err \<Rightarrow> Inl err
                 | Inr (masked, mk') \<Rightarrow>
                     Inr (matches @ [\<lparr>pii_type = pii_type_value PERSON_NAME,
                                       m_value = full_name, m_start = start_pos,
                                       m_end = start_pos + int (length full_name),
                                       confidence = conf, masked_value = masked,
                                       m_context = None\<rparr>], mk'))
           else Inr (matches, mk))"

lemma extract_loop_index: "extract_loop words start_idx name_parts i = (ps, j) \<Longrightarrow> i \<le> j"
proof (induction words start_idx name_parts i rule: extract_loop.induct)
  case (1 words start_idx name_parts i)
  show ?case
  proof (cases "i < length words \<and> i < start_idx + 4 \<and>
      (is_capitalized_word (py_strip punctuation (words ! i)) \<or>
       py_lower (py_strip punctuation (words ! i)) \<in> set SUFFIXES)")
    case True
    with "1.prems" have "extract_loop words start_idx (name_parts @ [words ! i]) (i + 1) = (ps, j)"
      by (subst (asm) extract_loop.simps) (simp add: Let_def)
    with True have "i + 1 \<le> j" by (intro "1.IH") (auto simp: Let_def)
    then show ?thesis by simp
  next
    case False
    with "1.prems" have "j = i"
      by (subst (asm) extract_loop.simps) (auto simp: Let_def split: if_splits)
    then show ?thesis by simp
  qed
qed

lemma extract_name_sequence_index:
  "extract_name_sequence words i = Inr (ps, j) \<Longrightarrow> i < j"
  using extract_loop_index [of words i "[words ! i]" "i + 1" ps j]
  by (auto simp: extract_name_sequence_def split: if_splits)

text \<open>The \<open>while\<close> loop of \<open>_detect_names\<close> over the index \<open>i\<close>.\<close>

function names_loop :: "(string \<Rightarrow> string) \<Rightarrow> bool \<Rightarrow> string \<Rightarrow> string list \<Rightarrow> nat \<Rightarrow>
    PIIMatch list \<times> PIIMasker \<Rightarrow> error + (PIIMatch list \<times> PIIMasker)" where
  "names_loop hexdigest ctx text words i acc =
     (if \<not> i < length words then Inr acc
      else
        (let word = py_strip punctuation (words ! i);
             word_lower = py_lower word
         in if word_lower \<in> set PREFIXES \<and> i + 1 < length words
            then
              (case extract_name_sequence words i of
                 Inl err \<Rightarrow> Inl err
               | Inr (name_parts, next_i) \<Rightarrow>
                   (case (if name_parts \<noteq> [] \<and> length name_parts \<ge> 2
                          then name_candidate hexdigest ctx text (py_join '' '' name_parts)
                                 (85 / 100) (70 / 100) acc
                          else Inr acc) of
                      Inl err \<Rightarrow> Inl err
                    | Inr acc' \<Rightarrow> names_loop hexdigest ctx text words next_i acc'))
            else if word_lower \<in> set COMMON_FIRST_NAMES \<and> i + 1 < length words
            then
              (let next_word = py_strip punctuation (words ! (i + 1))
               in case (if is_capitalized_word next_word \<and> length next_word > 2
                        then name_candidate hexdigest ctx text (words ! i @ '' '' @ words ! (i + 1))
                               (75 / 100) (60 / 100) acc
                        else Inr acc) of
                    Inl err \<Rightarrow> Inl err
                  | Inr acc' \<Rightarrow> names_loop hexdigest ctx text words (i + 2) acc')
            else names_loop hexdigest ctx text words (i + 1) acc))"
  by pat_completeness auto
termination
  by (relation "measure (\<lambda>(hexdigest, ctx, text, words, i, acc). length words - i)")
     (auto dest: extract_name_sequence_index)

definition detect_names :: "(string \<Rightarrow> string) \<Rightarrow> PIIDetector \<Rightarrow> string \<Rightarrow>
    PIIMasker \<Rightarrow> error + (PIIMatch list \<times> PIIMasker)" where
  "detect_names hexdigest det text mk =
     names_loop hexdigest (enable_context_validation det) text (py_split text) 0 ([], mk)"

text \<open>The loop of \<open>_detect_addresses\<close> over the spans of the address pattern.\<close>

fun scan_addresses :: "(string \<Rightarrow> string) \<Rightarrow> bool \<Rightarrow> string \<Rightarrow> (nat \<times> nat) list \<Rightarrow>
    PIIMatch list \<times> PIIMasker \<Rightarrow> error + (PIIMatch list \<times> PIIMasker)" where
  "scan_addresses hexdigest ctx text [] acc = Inr acc"
| "scan_addresses hexdigest ctx text ((s, e) # rest) (matches, mk) =
     (let address = py_slice text (int s) (int e);
          start = int s;
          end' = int e;
          context_valid = (if ctx then is_likely_address_context text start end' else True);
          conf = (if context_valid then 80 / 100 else 65 / 100)
      in case mask hexdigest mk address ADDRESS None of
           Inl err \<Rightarrow> Inl err
         | Inr (masked, mk') \<Rightarrow>
             scan_addresses hexdigest ctx text rest
               (matches @ [\<lparr>pii_type = pii_type_value ADDRESS, m_value = address,
                            m_start = start, m_end = end', confidence = conf,
                            masked_value = masked, m_context = None\<rparr>], mk'))"

definition detect_addresses :: "(string \<Rightarrow> string) \<Rightarrow> PIIDetector \<Rightarrow> string \<Rightarrow>
    PIIMasker \<Rightarrow> error + (PIIMatch list \<times> PIIMasker)" where
  "detect_addresses hexdigest det text mk =
     scan_addresses hexdigest (enable_context_validation det) text
       (finditer address_pattern True text) ([], mk)"

text \<open>
  \<open>detect_all\<close> answers the final matches and the detector after the call: its masker
  may have issued tokens, its collector has counted the text and the matches.
\<close>

definition record_statistics :: "StatisticsCollector option \<Rightarrow> PIIMatch list \<Rightarrow>
    StatisticsCollector option" where
  "record_statistics stats final_matches =
     (case stats of
        None \<Rightarrow> None
      | Some st \<Rightarrow> Some (foldl (\<lambda>st m. record_detection st (pii_type m))
                          (record_processing st) final_matches))"

definition detect_all :: "(string \<Rightarrow> string) \<Rightarrow> PIIDetector \<Rightarrow> string \<Rightarrow> rat \<Rightarrow>
    PIIType list option \<Rightarrow> error + (PIIMatch list \<times> PIIDetector)" where
  "detect_all hexdigest det text confidence_threshold pii_types =
     (case detect_pattern_based hexdigest det text pii_types of
        Inl err \<Rightarrow> Inl err
      | Inr (pattern_matches, mk1) \<Rightarrow>
          (case (if requested pii_types PERSON_NAME
                 then detect_names hexdigest det text mk1 else Inr ([], mk1)) of
             Inl err \<Rightarrow> Inl err
           | Inr (name_matches, mk2) \<Rightarrow>
               (case (if requested pii_types ADDRESS
                      then detect_addresses hexdigest det text mk2 else Inr ([], mk2)) of
                  Inl err \<Rightarrow> Inl err
                | Inr (address_matches, mk3) \<Rightarrow>
                    (let all_matches = pattern_matches @ name_matches @ address_matches;
                         filtered_matches =
                           filter (\<lambda>m. confidence m \<ge> confidence_threshold) all_matches;
                         final_matches = resolve_overlaps filtered_matches
                     in Inr (final_matches,
                             det\<lparr>masker := mk3,
                                 statistics := record_statistics (statistics det) final_matches\<rparr>)))))"



section \<open>Notions used by the properties\<close>

text \<open>The span of a match, cut out of the text, is the value of the match.\<close>

definition span_is_value :: "string \<Rightarrow> PIIMatch \<Rightarrow> bool" where
  "span_is_value text m \<longleftrightarrow> py_slice text (m_start m) (m_end m) = m_value m"

text \<open>A detector tokenizes if TOKENIZE is the masker's default or the strategy of a type.\<close>

definition tokenizes :: "PIIDetector \<Rightarrow> bool" where
  "tokenizes det \<longleftrightarrow>
     default_strategy (masker det) = TOKENIZE \<or>
     list_ex (\<lambda>t. get_strategy (masking_config det) t = TOKENIZE) all_pii_types"

text \<open>
  Two calls of \<open>detect_all\<close> in succession with the same arguments, the second on the
  detector that the first one leaves; the answer is the pair of results.
\<close>

definition successive_calls :: "(string \<Rightarrow> string) \<Rightarrow> PIIDetector \<Rightarrow> string \<Rightarrow> rat \<Rightarrow>
    PIIType list option \<Rightarrow> error + (PIIMatch list \<times> PIIMatch list)" where
  "successive_calls hexdigest det text confidence_threshold pii_types =
     (case detect_all hexdigest det text confidence_threshold pii_types of
        Inl err \<Rightarrow> Inl err
      | Inr (first_matches, det') \<Rightarrow>
          (case detect_all hexdigest det' text confidence_threshold pii_types of
             Inl err \<Rightarrow> Inl err
           | Inr (second_matches, det'') \<Rightarrow> Inr (first_matches, second_matches)))"

text \<open>
  The candidates that \<open>detect_all\<close> gathers before it filters them by confidence, with
  the masker after the three scans.
\<close>

definition collect_matches :: "(string \<Rightarrow> string) \<Rightarrow> PIIDetector \<Rightarrow> string \<Rightarrow>
    PIIType list option \<Rightarrow> error + (PIIMatch list \<times> PIIMasker)" where
  "collect_matches hexdigest det text pii_types =
     (case detect_pattern_based hexdigest det text pii_types of
        Inl err \<Rightarrow> Inl err
      | Inr (pattern_matches, mk1) \<Rightarrow>
          (case (if requested pii_types PERSON_NAME
                 then detect_names hexdigest det text mk1 else Inr ([], mk1)) of
             Inl err \<Rightarrow> Inl err
           | Inr (name_matches, mk2) \<Rightarrow>
               (case (if requested pii_types ADDRESS
                      then detect_addresses hexdigest det text mk2 else Inr ([], mk2)) of
                  Inl err \<Rightarrow> Inl err
                | Inr (address_matches, mk3) \<Rightarrow>
                    Inr (pattern_matches @ name_matches @ address_matches, mk3))))"

text \<open>
  The Luhn check in the words of the specification: the digits are read from the right,
  the digit at an odd index is doubled and reduced by nine if the double exceeds nine, and
  the total must be a multiple of ten.
\<close>

definition luhn_term :: "nat \<Rightarrow> int \<Rightarrow> int" where
  "luhn_term i d = (if odd i then (if 2 * d > 9 then 2 * d - 9 else 2 * d) else d)"

definition luhn_spec :: "string \<Rightarrow> bool" where
  "luhn_spec s =
     (let ds = rev (map digit_value (filter is_decimal s)); n = length ds
      in if n < 13 \<or> n > 19 then False
         else sum_list (map (\<lambda>i. luhn_term i (ds ! i)) [0 ..< n]) mod 10 = 0)"

text \<open>A part that parses as an integer between two bounds.\<close>

definition parses_within :: "int \<Rightarrow> int \<Rightarrow> string \<Rightarrow> bool" where
  "parses_within lo hi s = (case py_int s of None \<Rightarrow> False | Some v \<Rightarrow> lo \<le> v \<and> v \<le> hi)"

definition dob_parts :: "string \<Rightarrow> string list" where
  "dob_parts dob = split_where (\<lambda>c. c = CHR ''/'' \<or> c = CHR ''-'') dob"

text \<open>
  Acceptance of a date of birth as the specification words it: three parts, exactly one
  of length four, which is a year from 1900 to 2025, and every other part of length at
  most two and a number from 1 to 31.
\<close>

definition dob_exactly_one_year :: "string \<Rightarrow> bool" where
  "dob_exactly_one_year dob =
     (let parts = dob_parts dob
      in length parts = 3 \<and> length (filter (\<lambda>p. length p = 4) parts) = 1 \<and>
         list_all (\<lambda>p. if length p = 4 then parses_within 1900 2025 p
                        else length p \<le> 2 \<and> parses_within 1 31 p) parts)"

text \<open>
  Acceptance as the code decides it: three parts, the first part of length four is a
  year from 1900 to 2025, and every part of length at most two is a number from 1 to 31.
\<close>

definition dob_first_year :: "string \<Rightarrow> bool" where
  "dob_first_year dob =
     (let parts = dob_parts dob
      in length parts = 3 \<and>
         (case find (\<lambda>p. length p = 4) parts of
            None \<Rightarrow> False
          | Some y \<Rightarrow> parses_within 1900 2025 y) \<and>
         list_all (\<lambda>p. length p \<le> 2 \<longrightarrow> parses_within 1 31 p) parts)"

text \<open>
  The characters that a match of a regular expression can hold: those of its classes,
  lookaheads apart. \<open>spans_within\<close> says that a span lies in the text and holds such
  characters only.
\<close>

primrec consumes :: "regex \<Rightarrow> char list" where
  "consumes (Cls cs) = cs"
| "consumes Eps = []"
| "consumes (Seq a b) = consumes a @ consumes b"
| "consumes (Alt a b) = consumes a @ consumes b"
| "consumes (Rep lo hi r) = consumes r"
| "consumes (NegLook r) = []"
| "consumes WordB = []"
| "consumes Bol = []"
| "consumes Eol = []"

definition spans_within :: "char list \<Rightarrow> string \<Rightarrow> nat \<Rightarrow> nat \<Rightarrow> bool" where
  "spans_within A s i e \<longleftrightarrow> i \<le> e \<and> e \<le> length s \<and> (\<forall>k. i \<le> k \<and> k < e \<longrightarrow> s ! k \<in> set A)"

text \<open>
  A string whose digits are decimal: every character that \<open>str.isdigit\<close> accepts is one
  that \<open>int\<close> reads.
\<close>

definition decimal_only :: "char \<Rightarrow> bool" where
  "decimal_only c \<longleftrightarrow> (is_digit c \<longrightarrow> is_decimal c)"

definition digits_decimal :: "string \<Rightarrow> bool" where
  "digits_decimal s \<longleftrightarrow> list_all decimal_only s"

section \<open>Properties of overlap resolution\<close>

lemma has_overlap_sym: "has_overlap a b \<longleftrightarrow> has_overlap b a"
  by (auto simp: has_overlap_def)

lemma no_overlap_disjoint: "\<not> has_overlap a b \<Longrightarrow> m_span a \<inter> m_span b = {}"
  by (auto simp: has_overlap_def m_span_def)

lemma first_overlap_None: "first_overlap m rs = None \<longleftrightarrow> (\<forall>r \<in> set rs. \<not> has_overlap m r)"
  by (induction rs) auto

lemma first_overlap_Some:
  "first_overlap m rs = Some e \<Longrightarrow> e \<in> set rs \<and> has_overlap m e"
  by (induction rs) (auto split: if_splits)

lemma overlap_unique:
  assumes "sorted_wrt (\<lambda>a b. \<not> has_overlap a b) rs"
    and "\<forall>r \<in> set rs. m_start r \<le> m_start m"
    and "first_overlap m rs = Some e"
  shows "\<forall>r \<in> set (remove1 e rs). \<not> has_overlap m r"
  using assms
proof (induction rs)
  case Nil
  then show ?case by simp
next
  case (Cons a rs)
  show ?case
  proof (cases "has_overlap m a")
    case True
    with Cons.prems have e: "e = a" by simp
    have "\<not> has_overlap m r" if r: "r \<in> set rs" for r
    proof
      assume o: "has_overlap m r"
      from Cons.prems(1) r have n: "\<not> has_overlap a r" by simp
      from Cons.prems(2) r have "m_start a \<le> m_start m" "m_start r \<le> m_start m" by simp_all
      with True o have "has_overlap a r" by (auto simp: has_overlap_def)
      with n show False by simp
    qed
    with e show ?thesis by simp
  next
    case False
    with Cons.prems have f: "first_overlap m rs = Some e" by simp
    from first_overlap_Some [OF f] False have "e \<noteq> a" by auto
    moreover from Cons.prems have "\<forall>r \<in> set (remove1 e rs). \<not> has_overlap m r"
      using Cons.IH f by simp
    ultimately show ?thesis using False by simp
  qed
qed

lemma sorted_wrt_remove1: "sorted_wrt P rs \<Longrightarrow> sorted_wrt P (remove1 e rs)"
proof (induction rs)
  case Nil
  then show ?case by simp
next
  case (Cons a rs)
  then show ?case using notin_set_remove1 [of _ rs e] by auto
qed

lemma sorted_map_remove1: "sorted (map f rs) \<Longrightarrow> sorted (map f (remove1 e rs))"
proof (induction rs)
  case Nil
  then show ?case by simp
next
  case (Cons a rs)
  then show ?case using notin_set_remove1 [of _ rs e] by auto
qed

lemma resolve_step_inv:
  assumes inv: "sel_inv rs" and le: "\<forall>r \<in> set rs. m_start r \<le> m_start m"
  shows "sel_inv (resolve_step rs m)"
proof (cases "first_overlap m rs")
  case None
  then have "\<forall>r \<in> set rs. \<not> has_overlap r m"
    using has_overlap_sym by (simp add: first_overlap_None)
  with inv le None show ?thesis
    by (simp add: sel_inv_def resolve_step_def sorted_wrt_append sorted_append)
next
  case (Some e)
  show ?thesis
  proof (cases "confidence m > confidence e")
    case True
    from inv have sw: "sorted_wrt (\<lambda>a b. \<not> has_overlap a b) rs" by (simp add: sel_inv_def)
    from overlap_unique [OF sw le Some]
    have "\<forall>r \<in> set (remove1 e rs). \<not> has_overlap r m" using has_overlap_sym by blast
    moreover have "\<forall>r \<in> set (remove1 e rs). m_start r \<le> m_start m"
      using le notin_set_remove1 [of _ rs e] by blast
    ultimately show ?thesis using inv Some True
      by (simp add: sel_inv_def resolve_step_def sorted_wrt_append sorted_append
          sorted_wrt_remove1 sorted_map_remove1)
  next
    case False
    with Some inv show ?thesis by (simp add: resolve_step_def)
  qed
qed

lemma set_resolve_step: "set (resolve_step rs m) \<subseteq> insert m (set rs)"
  using notin_set_remove1 [of _ rs]
  by (auto simp: resolve_step_def split: option.splits)

lemma foldl_resolve_inv:
  assumes "sel_inv rs" and "sorted (map m_start xs)"
    and "\<forall>r \<in> set rs. \<forall>x \<in> set xs. m_start r \<le> m_start x"
  shows "sel_inv (foldl resolve_step rs xs)"
  using assms
proof (induction xs arbitrary: rs)
  case Nil
  then show ?case by simp
next
  case (Cons x xs)
  have step: "sel_inv (resolve_step rs x)"
    using Cons.prems by (intro resolve_step_inv) auto
  have "\<forall>r \<in> set (resolve_step rs x). \<forall>y \<in> set xs. m_start r \<le> m_start y"
    using set_resolve_step [of rs x] Cons.prems(2,3) by auto
  with step Cons.prems(2) show ?case
    using Cons.IH [of "resolve_step rs x"] by simp
qed

lemma set_foldl_resolve: "set (foldl resolve_step rs xs) \<subseteq> set rs \<union> set xs"
proof (induction xs arbitrary: rs)
  case Nil
  then show ?case by simp
next
  case (Cons x xs)
  then show ?case using set_resolve_step [of rs x] by fastforce
qed

lemma sorted_start_of_key:
  "sorted (map m_start (sort_key (\<lambda>x. (m_start x, - confidence x)) ms))"
proof -
  have "sorted (map (\<lambda>x. (m_start x, - confidence x)) (sort_key (\<lambda>x. (m_start x, - confidence x)) ms))"
    by (rule sorted_sort_key)
  then have "sorted_wrt (\<lambda>a b. (m_start a, - confidence a) \<le> (m_start b, - confidence b))
      (sort_key (\<lambda>x. (m_start x, - confidence x)) ms)"
    by (simp add: sorted_map)
  then have "sorted_wrt (\<lambda>a b. m_start a \<le> m_start b)
      (sort_key (\<lambda>x. (m_start x, - confidence x)) ms)"
    by (rule sorted_wrt_mono_rel [rotated]) (auto simp: less_eq_prod_def)
  then show ?thesis by (simp add: sorted_map)
qed

lemma resolve_overlaps_foldl:
  "resolve_overlaps ms = foldl resolve_step [] (sort_key (\<lambda>x. (m_start x, - confidence x)) ms)"
proof (cases "ms = []")
  case True
  then show ?thesis by (simp add: resolve_overlaps_def)
next
  case False
  have "sel_inv (foldl resolve_step [] (sort_key (\<lambda>x. (m_start x, - confidence x)) ms))"
    by (rule foldl_resolve_inv) (simp_all add: sel_inv_def sorted_start_of_key)
  then have "sorted (map m_start (foldl resolve_step [] (sort_key (\<lambda>x. (m_start x, - confidence x)) ms)))"
    by (simp add: sel_inv_def)
  then show ?thesis using False
    by (simp add: resolve_overlaps_def Let_def sort_key_id_if_sorted)
qed

lemma resolve_overlaps_inv: "sel_inv (resolve_overlaps ms)"
  unfolding resolve_overlaps_foldl
  by (rule foldl_resolve_inv) (simp_all add: sel_inv_def sorted_start_of_key)

lemma sel_inv_non_overlapping: "sel_inv rs \<Longrightarrow> non_overlapping rs \<and> sorted_by_start rs"
proof -
  assume inv: "sel_inv rs"
  have "m_span (rs ! i) \<inter> m_span (rs ! j) = {}" if "i < length rs" "j < length rs" "i \<noteq> j" for i j
  proof (cases "i < j")
    case True
    with inv that have "\<not> has_overlap (rs ! i) (rs ! j)"
      by (simp add: sel_inv_def sorted_wrt_iff_nth_less)
    then show ?thesis by (rule no_overlap_disjoint)
  next
    case False
    with that have "j < i" by simp
    with inv that have "\<not> has_overlap (rs ! j) (rs ! i)"
      by (simp add: sel_inv_def sorted_wrt_iff_nth_less)
    then show ?thesis using no_overlap_disjoint by blast
  qed
  with inv show ?thesis by (simp add: non_overlapping_def sorted_by_start_def sel_inv_def)
qed

lemma set_resolve_overlaps: "set (resolve_overlaps ms) \<subseteq> set ms"
  unfolding resolve_overlaps_foldl using set_foldl_resolve [of "[]"] by fastforce

subsection \<open>Raising the threshold filters the selection\<close>

lemma remove1_filter_keep: "P e \<Longrightarrow> remove1 e (filter P rs) = filter P (remove1 e rs)"
  by (induction rs) auto

lemma filter_remove1_drop: "\<not> P e \<Longrightarrow> filter P (remove1 e rs) = filter P rs"
  by (induction rs) auto

lemma first_overlap_filter_keep:
  "first_overlap m rs = Some e \<Longrightarrow> P e \<Longrightarrow> first_overlap m (filter P rs) = Some e"
  by (induction rs) (auto split: if_splits)

lemma resolve_step_filter_keep:
  assumes sw: "sorted_wrt (\<lambda>a b. \<not> has_overlap a b) rs"
    and le: "\<forall>r \<in> set rs. m_start r \<le> m_start m"
    and m: "t \<le> confidence m"
  shows "resolve_step (filter (\<lambda>x. t \<le> confidence x) rs) m =
         filter (\<lambda>x. t \<le> confidence x) (resolve_step rs m)"
proof (cases "first_overlap m rs")
  case None
  then have "first_overlap m (filter (\<lambda>x. t \<le> confidence x) rs) = None"
    by (simp add: first_overlap_None)
  with None m show ?thesis by (simp add: resolve_step_def)
next
  case (Some e)
  show ?thesis
  proof (cases "t \<le> confidence e")
    case True
    with Some have "first_overlap m (filter (\<lambda>x. t \<le> confidence x) rs) = Some e"
      by (intro first_overlap_filter_keep) simp_all
    with Some True m show ?thesis
      by (simp add: resolve_step_def remove1_filter_keep [of "\<lambda>x. t \<le> confidence x"])
  next
    case False
    from overlap_unique [OF sw le Some]
    have u: "\<forall>r \<in> set (remove1 e rs). \<not> has_overlap m r" .
    have "r \<in> set (remove1 e rs)" if "r \<in> set (filter (\<lambda>x. t \<le> confidence x) rs)" for r
      using that False by (cases "r = e") auto
    with u have "first_overlap m (filter (\<lambda>x. t \<le> confidence x) rs) = None"
      unfolding first_overlap_None by blast
    moreover from False m have "confidence e < confidence m" by simp
    ultimately show ?thesis using Some False m
      by (simp add: resolve_step_def filter_remove1_drop [of "\<lambda>x. t \<le> confidence x"])
  qed
qed

lemma resolve_step_filter_drop:
  assumes m: "\<not> t \<le> confidence m"
  shows "filter (\<lambda>x. t \<le> confidence x) (resolve_step rs m) = filter (\<lambda>x. t \<le> confidence x) rs"
proof (cases "first_overlap m rs")
  case None
  with m show ?thesis by (simp add: resolve_step_def)
next
  case (Some e)
  show ?thesis
  proof (cases "confidence m > confidence e")
    case True
    with m have "\<not> t \<le> confidence e" by simp
    with Some True m show ?thesis
      by (simp add: resolve_step_def filter_remove1_drop [of "\<lambda>x. t \<le> confidence x"])
  next
    case False
    with Some show ?thesis by (simp add: resolve_step_def)
  qed
qed

lemma foldl_resolve_filter:
  assumes "sel_inv rs" and "sorted (map m_start xs)"
    and "\<forall>r \<in> set rs. \<forall>x \<in> set xs. m_start r \<le> m_start x"
  shows "foldl resolve_step (filter (\<lambda>x. t \<le> confidence x) rs) (filter (\<lambda>x. t \<le> confidence x) xs) =
         filter (\<lambda>x. t \<le> confidence x) (foldl resolve_step rs xs)"
  using assms
proof (induction xs arbitrary: rs)
  case Nil
  then show ?case by simp
next
  case (Cons x xs)
  have le: "\<forall>r \<in> set rs. m_start r \<le> m_start x" using Cons.prems(3) by simp
  have step: "sel_inv (resolve_step rs x)"
    using Cons.prems(1) le by (rule resolve_step_inv)
  have bound: "\<forall>r \<in> set (resolve_step rs x). \<forall>y \<in> set xs. m_start r \<le> m_start y"
    using set_resolve_step [of rs x] Cons.prems(2,3) by auto
  have IH: "foldl resolve_step (filter (\<lambda>x. t \<le> confidence x) (resolve_step rs x))
              (filter (\<lambda>x. t \<le> confidence x) xs) =
            filter (\<lambda>x. t \<le> confidence x) (foldl resolve_step (resolve_step rs x) xs)"
    using Cons.IH [OF step _ bound] Cons.prems(2) by simp
  show ?case
  proof (cases "t \<le> confidence x")
    case True
    have "resolve_step (filter (\<lambda>x. t \<le> confidence x) rs) x =
          filter (\<lambda>x. t \<le> confidence x) (resolve_step rs x)"
      using Cons.prems(1) le True by (intro resolve_step_filter_keep) (simp_all add: sel_inv_def)
    with True IH show ?thesis by simp
  next
    case False
    with IH show ?thesis by (simp add: resolve_step_filter_drop)
  qed
qed

lemma resolve_overlaps_filter:
  "resolve_overlaps (filter (\<lambda>x. t \<le> confidence x) ms) =
   filter (\<lambda>x. t \<le> confidence x) (resolve_overlaps ms)"
proof -
  have "foldl resolve_step (filter (\<lambda>x. t \<le> confidence x) [])
          (filter (\<lambda>x. t \<le> confidence x) (sort_key (\<lambda>x. (m_start x, - confidence x)) ms)) =
        filter (\<lambda>x. t \<le> confidence x)
          (foldl resolve_step [] (sort_key (\<lambda>x. (m_start x, - confidence x)) ms))"
    by (rule foldl_resolve_filter) (simp_all add: sel_inv_def sorted_start_of_key)
  then show ?thesis by (simp add: resolve_overlaps_foldl filter_sort)
qed
section \<open>Where the validators return\<close>

text \<open>
  A validator raises where \<open>str.isdigit\<close> lets a character pass that \<open>int\<close> refuses. On a
  string whose digits are decimal it returns.
\<close>

lemma validate_credit_card_superscript:
  "validate_credit_card (CHR 0xB2 # ''4532015112830366'') = Inl ValueError"
  by code_simp

lemma decimal_is_digit: "is_decimal c \<Longrightarrow> is_digit c"
  by (simp add: is_decimal_def is_digit_def)

lemma decimal_not_space: "is_decimal c \<Longrightarrow> c \<notin> set int_whitespace_chars"
  by (auto simp: is_decimal_def digit_chars_def int_whitespace_chars_def)

lemma decimal_not_sign: "is_decimal c \<Longrightarrow> c \<noteq> CHR ''+'' \<and> c \<noteq> CHR ''-'' \<and> c \<noteq> CHR ''_''"
  by (auto simp: is_decimal_def digit_chars_def)

lemma well_grouped_digits: "s \<noteq> [] \<Longrightarrow> list_all is_decimal s \<Longrightarrow> well_grouped s"
  by (induction s rule: well_grouped.induct) (auto dest: decimal_not_sign)

lemma dropWhile_none: "\<forall>x \<in> set xs. \<not> P x \<Longrightarrow> dropWhile P xs = xs"
  by (cases xs) auto

lemma py_strip_none: "\<forall>c \<in> set s. c \<notin> set chars \<Longrightarrow> py_strip chars s = s"
  by (simp add: py_strip_def dropWhile_none)

lemma py_strip_digits: "list_all is_decimal s \<Longrightarrow> py_strip int_whitespace_chars s = s"
  by (rule py_strip_none) (simp add: list_all_iff decimal_not_space)

lemma py_int_digits:
  assumes "s \<noteq> []" and "list_all is_decimal s"
  shows "py_int s = Some (digits_value s)"
proof -
  from assms obtain c cs where s: "s = c # cs" by (cases s) auto
  with assms have "c \<noteq> CHR ''+''" "c \<noteq> CHR ''-''" by (auto dest: decimal_not_sign)
  then show ?thesis
    using assms well_grouped_digits [OF assms]
    by (simp add: py_int_def py_strip_digits Let_def) (simp add: s)
qed

lemma int_or_raise_digits:
  "s \<noteq> [] \<Longrightarrow> list_all is_decimal s \<Longrightarrow> int_or_raise s = Inr (digits_value s)"
  by (simp add: int_or_raise_def py_int_digits)

lemma digits_value_single: "is_decimal d \<Longrightarrow> digits_value [d] = digit_value d"
  by (simp add: digits_value_def)

lemma map_e_digits:
  "list_all is_decimal ds \<Longrightarrow> map_e (\<lambda>d. int_or_raise [d]) ds = Inr (map digit_value ds)"
  by (induction ds) (simp_all add: int_or_raise_digits digits_value_single bind_e_def)

lemma digits_decimal_filter:
  assumes "digits_decimal s"
  shows "filter is_digit s = filter is_decimal s"
  using assms decimal_is_digit
  by (intro filter_cong) (auto simp: digits_decimal_def decimal_only_def list_all_iff)

lemma digits_decimal_subset: "digits_decimal s \<Longrightarrow> set t \<subseteq> set s \<Longrightarrow> digits_decimal t"
  by (auto simp: digits_decimal_def list_all_iff)

lemma digits_decimal_all:
  "digits_decimal s \<Longrightarrow> list_all is_digit s \<Longrightarrow> list_all is_decimal s"
  by (auto simp: digits_decimal_def decimal_only_def list_all_iff)

lemma validate_credit_card_returns:
  assumes "digits_decimal s"
  shows "validate_credit_card s =
     Inr (let digits = map digit_value (filter is_decimal s)
          in if length digits < 13 \<or> length digits > 19 then False
             else foldl luhn_round 0 (enumerate 0 (rev digits)) mod 10 = 0)"
proof -
  have "list_all is_decimal (filter is_decimal s)" by (simp add: list_all_iff)
  then show ?thesis
    by (simp add: validate_credit_card_def digits_decimal_filter [OF assms] map_e_digits
        bind_e_def Let_def)
qed

lemma validate_ssn_returns:
  assumes "digits_decimal s"
  shows "\<exists>b. validate_ssn s = Inr b"
proof (cases "length (strip_separators s) \<noteq> 9 \<or> \<not> py_isdigit (strip_separators s)")
  case True
  then show ?thesis by (auto simp: validate_ssn_def Let_def)
next
  case False
  define c where "c = strip_separators s"
  have "digits_decimal c"
    using assms by (rule digits_decimal_subset) (auto simp: c_def strip_separators_def)
  with False have len: "length c = 9" and dig: "list_all is_decimal c"
    by (simp_all add: c_def py_isdigit_def digits_decimal_all)
  have a: "int_or_raise (py_slice_to c 3) = Inr (digits_value (py_slice_to c 3))"
    using len dig by (intro int_or_raise_digits) (auto simp: py_slice_to_def clip_index_def list_all_iff dest: in_set_takeD)
  have b: "int_or_raise (py_slice c 3 5) = Inr (digits_value (py_slice c 3 5))"
    using len dig by (intro int_or_raise_digits)
      (auto simp: py_slice_def clip_index_def list_all_iff Let_def dest!: in_set_takeD in_set_dropD)
  have d: "int_or_raise (py_slice_from c 5) = Inr (digits_value (py_slice_from c 5))"
    using len dig by (intro int_or_raise_digits)
      (auto simp: py_slice_from_def clip_index_def list_all_iff dest: in_set_dropD)
  show ?thesis using False
    by (auto simp: validate_ssn_def Let_def c_def [symmetric] a b d bind_e_def)
qed

lemma validate_phone_returns:
  assumes "digits_decimal s"
  shows "\<exists>b. validate_phone s = Inr b"
proof (cases "length (filter is_digit s) = 10")
  case True
  have "list_all is_decimal (filter is_digit s)"
    by (simp add: digits_decimal_filter [OF assms] list_all_iff)
  with True have "int_or_raise (py_slice_to (filter is_digit s) 3) =
      Inr (digits_value (py_slice_to (filter is_digit s) 3))"
    by (intro int_or_raise_digits)
       (auto simp: py_slice_to_def clip_index_def list_all_iff dest: in_set_takeD)
  with True show ?thesis by (auto simp: validate_phone_def Let_def bind_e_def)
next
  case False
  then show ?thesis by (auto simp: validate_phone_def Let_def)
qed

lemma validate_match_returns:
  assumes "digits_decimal v"
  shows "\<exists>b. validate_match v t = Inr b"
  using validate_ssn_returns [OF assms] validate_phone_returns [OF assms]
  by (auto simp: validate_match_def validate_credit_card_returns [OF assms])

section \<open>What a match of a pattern holds\<close>

text \<open>
  A match of a regular expression lies in the text and holds characters of its classes
  only; so does every span of \<open>finditer\<close>. The validators are called on such spans.
\<close>

declare rep_greedy.simps [simp del] finditer_from.simps [simp del]

lemma spans_within_refl: "i \<le> length s \<Longrightarrow> spans_within A s i i"
  by (auto simp: spans_within_def)

lemma spans_within_trans:
  assumes "spans_within A s i j" and "spans_within B s j e"
  shows "spans_within (A @ B) s i e"
proof -
  have "s ! k \<in> set (A @ B)" if "i \<le> k" "k < e" for k
  proof (cases "k < j")
    case True
    with assms(1) that show ?thesis by (simp add: spans_within_def)
  next
    case False
    with assms(2) that show ?thesis by (simp add: spans_within_def)
  qed
  with assms show ?thesis by (simp add: spans_within_def)
qed

lemma spans_within_mono:
  "spans_within A s i e \<Longrightarrow> set A \<subseteq> set B \<Longrightarrow> spans_within B s i e"
  unfolding spans_within_def by auto

lemma rep_greedy_within:
  "(\<forall>i j. i \<le> n \<longrightarrow> j \<in> set (f i) \<longrightarrow> spans_within A s i j) \<Longrightarrow> n = length s \<Longrightarrow>
     i \<le> n \<Longrightarrow> e \<in> set (rep_greedy f n lo hi i) \<Longrightarrow> spans_within A s i e"
proof (induction f n lo hi i rule: rep_greedy.induct)
  case (1 f n lo hi i)
  from "1.prems"(4) consider (stop) "e = i"
    | (more) j where "hi \<noteq> Some 0" "j \<in> set (f i)" "i < j \<and> j \<le> n"
        "e \<in> set (rep_greedy f n (lo - 1) (map_option (\<lambda>h. h - 1) hi) j)"
    by (subst (asm) rep_greedy.simps) (auto split: if_splits)
  then show ?case
  proof cases
    case stop
    with "1.prems"(2,3) show ?thesis by (simp add: spans_within_refl)
  next
    case more
    from "1.prems"(1,3) more(2) have a: "spans_within A s i j" by blast
    from more(3) have "j \<le> n" by simp
    from "1.IH" [OF more(1,2,3) "1.prems"(1,2) this more(4)]
    have b: "spans_within A s j e" .
    from spans_within_trans [OF a b] show ?thesis
      by (rule spans_within_mono) simp
  qed
qed

lemma rmatch_within:
  "i \<le> length s \<Longrightarrow> e \<in> set (rmatch r False s i) \<Longrightarrow> spans_within (consumes r) s i e"
proof (induction r arbitrary: i e)
  case (Cls cs)
  then show ?case
    by (auto simp: spans_within_def cls_matches_def less_Suc_eq split: if_splits)
next
  case (Seq a b)
  from Seq.prems(2) obtain j where j: "j \<in> set (rmatch a False s i)"
    and e: "e \<in> set (rmatch b False s j)" by auto
  from Seq.IH(1) [OF Seq.prems(1) j] have a: "spans_within (consumes a) s i j" .
  then have "j \<le> length s" by (simp add: spans_within_def)
  from Seq.IH(2) [OF this e] have "spans_within (consumes b) s j e" .
  with a show ?case by (simp add: spans_within_trans)
next
  case (Alt a b)
  from Alt.prems(2) consider "e \<in> set (rmatch a False s i)" | "e \<in> set (rmatch b False s i)"
    by auto
  then show ?case
  proof cases
    case 1
    from Alt.IH(1) [OF Alt.prems(1) 1] show ?thesis by (rule spans_within_mono) simp
  next
    case 2
    from Alt.IH(2) [OF Alt.prems(1) 2] show ?thesis by (rule spans_within_mono) simp
  qed
next
  case (Rep lo hi r)
  have "\<forall>i j. i \<le> length s \<longrightarrow> j \<in> set (rmatch r False s i) \<longrightarrow>
      spans_within (consumes r) s i j"
    using Rep.IH by blast
  from rep_greedy_within [OF this refl Rep.prems(1)] Rep.prems(2) show ?case by simp
qed (auto simp: spans_within_refl split: if_splits)

lemma finditer_from_within:
  "(a, b) \<in> set (finditer_from r ic s pos) \<Longrightarrow> \<not> ic \<Longrightarrow> spans_within (consumes r) s a b"
proof (induction r ic s pos rule: finditer_from.induct)
  case (1 r ic s pos)
  from "1.prems"(1) have pos: "pos \<le> length s"
    by (subst (asm) finditer_from.simps) (auto split: if_splits)
  show ?case
  proof (cases "rmatch r ic s pos")
    case Nil
    with "1.prems" pos have "(a, b) \<in> set (finditer_from r ic s (Suc pos))"
      by (subst (asm) finditer_from.simps) simp
    with "1.IH"(1) Nil pos "1.prems"(2) show ?thesis by simp
  next
    case (Cons e es)
    with "1.prems" pos consider "(a, b) = (pos, e)"
      | "(a, b) \<in> set (finditer_from r ic s (if pos < e then e else Suc pos))"
      by (subst (asm) finditer_from.simps) auto
    then show ?thesis
    proof cases
      case 1
      with Cons pos "1.prems"(2) rmatch_within [of pos s e r] show ?thesis by simp
    next
      case 2
      with "1.IH"(2) Cons pos "1.prems"(2) show ?thesis by simp
    qed
  qed
qed

lemma slice_within: "spans_within A s a b \<Longrightarrow> set (py_slice s (int a) (int b)) \<subseteq> set A"
proof
  fix x
  assume w: "spans_within A s a b" and x: "x \<in> set (py_slice s (int a) (int b))"
  from w have ab: "a \<le> b" "b \<le> length s" by (simp_all add: spans_within_def)
  then have "py_slice s (int a) (int b) = take (b - a) (drop a s)"
    by (simp add: py_slice_def clip_index_def)
  with x obtain k where k: "k < b - a" "x = drop a s ! k"
    by (auto simp: in_set_conv_nth)
  with ab have "x = s ! (a + k)" by simp
  with w k(1) show "x \<in> set A" by (simp add: spans_within_def)
qed

lemma finditer_digits_decimal:
  assumes "list_all decimal_only (consumes r)" and "(a, b) \<in> set (finditer r False s)"
  shows "digits_decimal (py_slice s (int a) (int b))"
proof -
  from assms(2) have "spans_within (consumes r) s a b"
    unfolding finditer_def by (rule finditer_from_within) simp
  from slice_within [OF this] assms(1) show ?thesis
    by (auto simp: digits_decimal_def list_all_iff)
qed

lemma registry_decimal_only:
  "\<forall>p \<in> set PATTERN_REGISTRY. list_all decimal_only (consumes (pattern p))"
proof -
  have "list_all (\<lambda>p. list_all decimal_only (consumes (pattern p))) PATTERN_REGISTRY"
    by code_simp
  then show ?thesis by (simp add: list_all_iff)
qed

section \<open>No masking raises\<close>

lemma mask_email_returns: "\<exists>m. mask_email email = Inr m"
  by (auto simp: mask_email_def first_char_def last_char_def bind_e_def
      split: list.splits)

lemma mask_partial_returns: "\<exists>m. mask_partial v t = Inr m"
  using mask_email_returns [of v] by (auto simp: mask_partial_def)

lemma mask_returns: "\<exists>m mk'. mask hexdigest mk v t s = Inr (m, mk')"
  using mask_partial_returns [of v t]
  by (auto simp: mask_def bind_e_def split: MaskingStrategy.splits option.splits prod.splits)

lemma mask_no_error [simp]: "mask hexdigest mk v t s \<noteq> Inl e"
  using mask_returns [of hexdigest mk v t s] by auto

text \<open>Unless the strategy in force is TOKENIZE, the masker is left as it was.\<close>

lemma mask_keeps_masker:
  assumes "mask hexdigest mk v t s = Inr (m, mk')"
    and "(case s of None \<Rightarrow> default_strategy mk | Some x \<Rightarrow> x) \<noteq> TOKENIZE"
  shows "mk' = mk"
  using assms
  by (auto simp: mask_def bind_e_def split: MaskingStrategy.splits sum.splits)

lemma mask_keeps_default:
  "mask hexdigest mk v t s = Inr (m, mk') \<Longrightarrow> default_strategy mk' = default_strategy mk"
  by (auto simp: mask_def bind_e_def mask_tokenize_def Let_def
      split: MaskingStrategy.splits sum.splits)

section \<open>The loops of the detector\<close>

text \<open>
  Each loop returns; it keeps the property that spans cut out their values; and it
  leaves the masker unchanged unless the strategy in force is TOKENIZE.
\<close>

lemma scan_matches_returns:
  assumes "\<forall>(a, b) \<in> set spans. digits_decimal (py_slice text (int a) (int b))"
  shows "\<exists>ms' mk'. scan_matches hexdigest ctx strict cfg text p spans (ms, mk) = Inr (ms', mk') \<and>
     ((\<forall>m \<in> set ms. span_is_value text m) \<longrightarrow> (\<forall>m \<in> set ms'. span_is_value text m)) \<and>
     (get_strategy cfg (pat_type p) \<noteq> TOKENIZE \<longrightarrow> mk' = mk) \<and>
     default_strategy mk' = default_strategy mk"
  using assms
proof (induction spans arbitrary: ms mk)
  case Nil
  then show ?case by simp
next
  case (Cons a spans)
  obtain s e where a: "a = (s, e)" by (cases a)
  define v where "v = py_slice text (int s) (int e)"
  from Cons.prems have dv: "digits_decimal v"
    and rest: "\<forall>(a, b) \<in> set spans. digits_decimal (py_slice text (int a) (int b))"
    by (simp_all add: a v_def)
  note IH = Cons.IH [OF rest]
  have "\<exists>b. (if requires_validation p \<and> strict then validate_match v (pat_type p)
      else Inr True) = Inr b"
    using validate_match_returns [OF dv, of "pat_type p"]
    by (cases "requires_validation p \<and> strict") auto
  then obtain b where b: "(if requires_validation p \<and> strict then validate_match v (pat_type p)
      else Inr True) = Inr b" ..
  show ?case
  proof (cases b)
    case False
    with b IH [of ms mk] show ?thesis by (simp add: a v_def [symmetric])
  next
    case True
    obtain masked mk1 where m: "mask hexdigest mk v (pat_type p)
        (Some (get_strategy cfg (pat_type p))) = Inr (masked, mk1)"
      using mask_returns by blast
    define new where "new = \<lparr>pii_type = pii_type_value (pat_type p), m_value = v,
      m_start = int s, m_end = int e,
      confidence = calculate_confidence ctx text v (int s) (int e) (pat_type p) (pat_confidence p) True,
      masked_value = masked, m_context = None\<rparr>"
    have step: "scan_matches hexdigest ctx strict cfg text p (a # spans) (ms, mk) =
        scan_matches hexdigest ctx strict cfg text p spans (ms @ [new], mk1)"
      using b True m by (simp add: a v_def [symmetric] new_def Let_def)
    have new: "span_is_value text new" by (simp add: span_is_value_def new_def v_def)
    have keep: "get_strategy cfg (pat_type p) \<noteq> TOKENIZE \<longrightarrow> mk1 = mk"
      using mask_keeps_masker [OF m] by simp
    have dflt: "default_strategy mk1 = default_strategy mk"
      using mask_keeps_default [OF m] .
    from IH [of "ms @ [new]" mk1] new keep dflt show ?thesis
      unfolding step by auto
  qed
qed

lemma scan_patterns_returns:
  assumes "\<forall>p \<in> set ps. list_all decimal_only (consumes (pattern p))"
  shows "\<exists>ms' mk'. scan_patterns hexdigest ctx strict cfg text pii_types ps (ms, mk) = Inr (ms', mk') \<and>
     ((\<forall>m \<in> set ms. span_is_value text m) \<longrightarrow> (\<forall>m \<in> set ms'. span_is_value text m)) \<and>
     ((\<forall>p \<in> set ps. get_strategy cfg (pat_type p) \<noteq> TOKENIZE) \<longrightarrow> mk' = mk) \<and>
     default_strategy mk' = default_strategy mk"
  using assms
proof (induction ps arbitrary: ms mk)
  case Nil
  then show ?case by simp
next
  case (Cons p ps)
  from Cons.prems have dp: "list_all decimal_only (consumes (pattern p))"
    and rest: "\<forall>p \<in> set ps. list_all decimal_only (consumes (pattern p))"
    by simp_all
  note IH = Cons.IH [OF rest]
  have spans: "\<forall>(a, b) \<in> set (finditer (pattern p) False text).
      digits_decimal (py_slice text (int a) (int b))"
    using finditer_digits_decimal [OF dp] by auto
  show ?case
  proof (cases "skipped pii_types (pat_type p)")
    case True
    with IH [of ms mk] show ?thesis by auto
  next
    case False
    obtain ms1 mk1 where
      s: "scan_matches hexdigest ctx strict cfg text p (finditer (pattern p) False text) (ms, mk) =
          Inr (ms1, mk1)"
      and p1: "(\<forall>m \<in> set ms. span_is_value text m) \<longrightarrow> (\<forall>m \<in> set ms1. span_is_value text m)"
      and k1: "get_strategy cfg (pat_type p) \<noteq> TOKENIZE \<longrightarrow> mk1 = mk"
      and d1: "default_strategy mk1 = default_strategy mk"
      using scan_matches_returns [OF spans, of hexdigest ctx strict cfg p ms mk] by blast
    from False s have step: "scan_patterns hexdigest ctx strict cfg text pii_types (p # ps) (ms, mk) =
        scan_patterns hexdigest ctx strict cfg text pii_types ps (ms1, mk1)"
      by simp
    from IH [of ms1 mk1] p1 k1 d1 show ?thesis unfolding step by auto
  qed
qed

lemma scan_addresses_returns:
  "\<exists>ms' mk'. scan_addresses hexdigest ctx text spans (ms, mk) = Inr (ms', mk') \<and>
     ((\<forall>m \<in> set ms. span_is_value text m) \<longrightarrow> (\<forall>m \<in> set ms'. span_is_value text m)) \<and>
     (default_strategy mk \<noteq> TOKENIZE \<longrightarrow> mk' = mk) \<and>
     default_strategy mk' = default_strategy mk"
proof (induction spans arbitrary: ms mk)
  case Nil
  then show ?case by simp
next
  case (Cons a spans)
  obtain s e where a: "a = (s, e)" by (cases a)
  define v where "v = py_slice text (int s) (int e)"
  obtain masked mk1 where m: "mask hexdigest mk v ADDRESS None = Inr (masked, mk1)"
    using mask_returns by blast
  define new where "new = \<lparr>pii_type = pii_type_value ADDRESS, m_value = v,
    m_start = int s, m_end = int e,
    confidence = (if (if ctx then is_likely_address_context text (int s) (int e) else True)
                  then 80 / 100 else 65 / 100),
    masked_value = masked, m_context = None\<rparr>"
  have step: "scan_addresses hexdigest ctx text (a # spans) (ms, mk) =
      scan_addresses hexdigest ctx text spans (ms @ [new], mk1)"
    using m by (simp add: a v_def [symmetric] new_def Let_def)
  have new: "span_is_value text new" by (simp add: span_is_value_def new_def v_def)
  have keep: "default_strategy mk \<noteq> TOKENIZE \<longrightarrow> mk1 = mk"
    using mask_keeps_masker [OF m] by simp
  have dflt: "default_strategy mk1 = default_strategy mk"
    using mask_keeps_default [OF m] .
  from Cons.IH [of "ms @ [new]" mk1] new keep dflt show ?case
    unfolding step by auto
qed

lemma find_from_found:
  "find_from sub s i = p \<Longrightarrow> p \<noteq> - 1 \<Longrightarrow>
     int i \<le> p \<and> p \<le> int (i + length s) \<and> prefix sub (drop (nat p - i) s)"
proof (induction s arbitrary: i)
  case Nil
  then show ?case by (auto split: if_splits)
next
  case (Cons c cs)
  show ?case
  proof (cases "prefix sub (c # cs)")
    case True
    with Cons.prems show ?thesis by auto
  next
    case False
    with Cons.prems have "find_from sub cs (Suc i) = p" by simp
    from Cons.IH [OF this Cons.prems(2)]
    have le: "int (Suc i) \<le> p" and up: "p \<le> int (Suc i + length cs)"
      and pre: "prefix sub (drop (nat p - Suc i) cs)" by simp_all
    from le have "nat p - i = Suc (nat p - Suc i)" by linarith
    with le up pre show ?thesis by simp
  qed
qed

lemma py_find_slice:
  assumes "py_find text sub = p" and "p \<noteq> - 1"
  shows "py_slice text p (p + int (length sub)) = sub"
proof -
  from find_from_found [of sub "text" 0 p] assms
  have p0: "0 \<le> p" and pn: "p \<le> int (length text)" and pre: "prefix sub (drop (nat p) text)"
    by (simp_all add: py_find_def)
  from pre obtain zs where zs: "drop (nat p) text = sub @ zs" by (auto simp: prefix_def)
  then have "length sub \<le> length text - nat p"
    by (metis length_append length_drop le_add1)
  with p0 pn have lo: "clip_index (length text) p = nat p"
    and hi: "clip_index (length text) (p + int (length sub)) = nat p + length sub"
    by (auto simp: clip_index_def nat_add_distrib)
  show ?thesis by (simp add: py_slice_def lo hi zs)
qed

lemma name_candidate_returns:
  "\<exists>ms' mk'. name_candidate hexdigest ctx text full_name hi lo (ms, mk) = Inr (ms', mk') \<and>
     ((\<forall>m \<in> set ms. span_is_value text m) \<longrightarrow> (\<forall>m \<in> set ms'. span_is_value text m)) \<and>
     (default_strategy mk \<noteq> TOKENIZE \<longrightarrow> mk' = mk) \<and>
     default_strategy mk' = default_strategy mk"
proof (cases "py_find text full_name = - 1")
  case True
  then show ?thesis by (simp add: name_candidate_def)
next
  case False
  obtain masked mk1 where m: "mask hexdigest mk full_name PERSON_NAME None = Inr (masked, mk1)"
    using mask_returns by blast
  have keep: "default_strategy mk \<noteq> TOKENIZE \<longrightarrow> mk1 = mk"
    using mask_keeps_masker [OF m] by simp
  have dflt: "default_strategy mk1 = default_strategy mk"
    using mask_keeps_default [OF m] .
  have "py_slice text (py_find text full_name) (py_find text full_name + int (length full_name)) =
      full_name"
    using False by (intro py_find_slice) simp_all
  with False m keep dflt show ?thesis
    by (simp add: name_candidate_def Let_def span_is_value_def)
qed

lemma extract_name_sequence_returns:
  "i < length words \<Longrightarrow> \<exists>ps j. extract_name_sequence words i = Inr (ps, j)"
  by (simp add: extract_name_sequence_def)

lemma names_loop_returns:
  "\<exists>ms' mk'. names_loop hexdigest ctx text words i (ms, mk) = Inr (ms', mk') \<and>
     ((\<forall>m \<in> set ms. span_is_value text m) \<longrightarrow> (\<forall>m \<in> set ms'. span_is_value text m)) \<and>
     (default_strategy mk \<noteq> TOKENIZE \<longrightarrow> mk' = mk) \<and>
     default_strategy mk' = default_strategy mk"
proof (induction "length words - i" arbitrary: i ms mk rule: less_induct)
  case less
  let ?P = "\<lambda>r ms mk. \<exists>ms' mk'. r = Inr (ms', mk') \<and>
     ((\<forall>m \<in> set ms. span_is_value text m) \<longrightarrow> (\<forall>m \<in> set ms'. span_is_value text m)) \<and>
     (default_strategy mk \<noteq> TOKENIZE \<longrightarrow> mk' = mk) \<and>
     default_strategy mk' = default_strategy mk"
  have IH: "?P (names_loop hexdigest ctx text words j (ms1, mk1)) ms1 mk1"
    if "i < j" "i < length words" for j ms1 mk1
    using less [of j ms1 mk1] that by simp
  have chain: "?P (names_loop hexdigest ctx text words j (ms1, mk1)) ms mk"
    if "i < j" "i < length words"
      and "(\<forall>m \<in> set ms. span_is_value text m) \<longrightarrow> (\<forall>m \<in> set ms1. span_is_value text m)"
      and "default_strategy mk \<noteq> TOKENIZE \<longrightarrow> mk1 = mk"
      and "default_strategy mk1 = default_strategy mk" for j ms1 mk1
    using IH [OF that(1,2), of ms1 mk1] that(3,4,5) by auto
  show ?case
  proof (cases "i < length words")
    case False
    then show ?thesis by (subst names_loop.simps) (simp del: names_loop.simps)
  next
    case True
    define wl where "wl = py_lower (py_strip punctuation (words ! i))"
    consider (prefix) "wl \<in> set PREFIXES \<and> i + 1 < length words"
      | (first) "\<not> (wl \<in> set PREFIXES \<and> i + 1 < length words)"
          "wl \<in> set COMMON_FIRST_NAMES \<and> i + 1 < length words"
      | (other) "\<not> (wl \<in> set PREFIXES \<and> i + 1 < length words)"
          "\<not> (wl \<in> set COMMON_FIRST_NAMES \<and> i + 1 < length words)"
      by blast
    then show ?thesis
    proof cases
      case prefix
      obtain ps j where e: "extract_name_sequence words i = Inr (ps, j)"
        using extract_name_sequence_returns [OF True] by blast
      then have ij: "i < j" by (rule extract_name_sequence_index)
      define r where "r = (if ps \<noteq> [] \<and> length ps \<ge> 2
          then name_candidate hexdigest ctx text (py_join '' '' ps) (85 / 100) (70 / 100) (ms, mk)
          else Inr (ms, mk))"
      have "?P r ms mk"
        using name_candidate_returns [of hexdigest ctx "text" "py_join '' '' ps" _ _ ms mk]
        by (simp add: r_def)
      then obtain ms1 mk1 where r: "r = Inr (ms1, mk1)"
        and p1: "(\<forall>m \<in> set ms. span_is_value text m) \<longrightarrow> (\<forall>m \<in> set ms1. span_is_value text m)"
        and k1: "default_strategy mk \<noteq> TOKENIZE \<longrightarrow> mk1 = mk"
        and d1: "default_strategy mk1 = default_strategy mk"
        by blast
      have step: "names_loop hexdigest ctx text words i (ms, mk) =
          names_loop hexdigest ctx text words j (ms1, mk1)"
        using True prefix e r
        by (subst names_loop.simps) (simp add: wl_def [symmetric] Let_def r_def [symmetric] del: names_loop.simps)
      show ?thesis unfolding step using chain [OF ij True p1 k1 d1] .
    next
      case first
      define r where "r = (if is_capitalized_word (py_strip punctuation (words ! (i + 1))) \<and>
            length (py_strip punctuation (words ! (i + 1))) > 2
          then name_candidate hexdigest ctx text (words ! i @ '' '' @ words ! (i + 1))
                 (75 / 100) (60 / 100) (ms, mk)
          else Inr (ms, mk))"
      have "?P r ms mk"
        using name_candidate_returns [of hexdigest ctx "text" "words ! i @ '' '' @ words ! (i + 1)" _ _ ms mk]
        by (simp add: r_def)
      then obtain ms1 mk1 where r: "r = Inr (ms1, mk1)"
        and p1: "(\<forall>m \<in> set ms. span_is_value text m) \<longrightarrow> (\<forall>m \<in> set ms1. span_is_value text m)"
        and k1: "default_strategy mk \<noteq> TOKENIZE \<longrightarrow> mk1 = mk"
        and d1: "default_strategy mk1 = default_strategy mk"
        by blast
      have step: "names_loop hexdigest ctx text words i (ms, mk) =
          names_loop hexdigest ctx text words (i + 2) (ms1, mk1)"
        using True first r [unfolded r_def]
        by (subst names_loop.simps)
           (auto simp add: wl_def [symmetric] Let_def simp del: names_loop.simps split: if_splits)
      show ?thesis unfolding step using chain [OF _ True p1 k1 d1, of "i + 2"] by simp
    next
      case other
      have step: "names_loop hexdigest ctx text words i (ms, mk) =
          names_loop hexdigest ctx text words (i + 1) (ms, mk)"
        using True other
        by (subst names_loop.simps)
           (auto simp add: wl_def [symmetric] Let_def simp del: names_loop.simps)
      show ?thesis unfolding step using IH [of "i + 1" ms mk] True by simp
    qed
  qed
qed

section \<open>The shape of \<open>detect_all\<close>\<close>

lemma detect_all_collect:
  "detect_all hexdigest det text thr pii_types =
     (case collect_matches hexdigest det text pii_types of
        Inl err \<Rightarrow> Inl err
      | Inr (all_matches, mk) \<Rightarrow>
          Inr (resolve_overlaps (filter (\<lambda>m. thr \<le> confidence m) all_matches),
               det\<lparr>masker := mk,
                   statistics := record_statistics (statistics det)
                     (resolve_overlaps (filter (\<lambda>m. thr \<le> confidence m) all_matches))\<rparr>))"
  by (simp add: detect_all_def collect_matches_def Let_def split: sum.splits prod.splits)

lemma detect_pattern_based_statistics:
  "detect_pattern_based hexdigest (det\<lparr>statistics := s\<rparr>) =
   detect_pattern_based hexdigest det"
  by (intro ext) (simp add: detect_pattern_based_def)

lemma detect_names_statistics:
  "detect_names hexdigest (det\<lparr>statistics := s\<rparr>) = detect_names hexdigest det"
  by (intro ext) (simp add: detect_names_def)

lemma detect_addresses_statistics:
  "detect_addresses hexdigest (det\<lparr>statistics := s\<rparr>) = detect_addresses hexdigest det"
  by (intro ext) (simp add: detect_addresses_def)

lemma collect_matches_statistics:
  "collect_matches hexdigest (det\<lparr>statistics := s\<rparr>) text pii_types =
   collect_matches hexdigest det text pii_types"
  unfolding collect_matches_def detect_pattern_based_statistics detect_names_statistics
    detect_addresses_statistics
  by (rule refl)

lemma all_pii_types_complete: "t \<in> set all_pii_types"
  by (cases t) (simp_all add: all_pii_types_def)

lemma not_tokenizes:
  "\<not> tokenizes det \<Longrightarrow>
     default_strategy (masker det) \<noteq> TOKENIZE \<and> get_strategy (masking_config det) t \<noteq> TOKENIZE"
  using all_pii_types_complete [of t] by (auto simp: tokenizes_def list_ex_iff)

lemma collect_matches_returns:
  "\<exists>cands mk'. collect_matches hexdigest det text pii_types = Inr (cands, mk') \<and>
     (\<forall>m \<in> set cands. span_is_value text m) \<and>
     (\<not> tokenizes det \<longrightarrow> mk' = masker det) \<and>
     default_strategy mk' = default_strategy (masker det)"
proof -
  obtain pm mk1 where
    p: "detect_pattern_based hexdigest det text pii_types = Inr (pm, mk1)"
    and p_span: "\<forall>m \<in> set pm. span_is_value text m"
    and p_keep: "(\<forall>p \<in> set PATTERN_REGISTRY.
        get_strategy (masking_config det) (pat_type p) \<noteq> TOKENIZE) \<longrightarrow> mk1 = masker det"
    and p_dflt: "default_strategy mk1 = default_strategy (masker det)"
    unfolding detect_pattern_based_def
    using scan_patterns_returns [OF registry_decimal_only, of hexdigest
        "enable_context_validation det" "enable_strict_validation det" "masking_config det"
        "text" pii_types "[]" "masker det"]
    by auto
  define rn where "rn = (if requested pii_types PERSON_NAME
      then detect_names hexdigest det text mk1 else Inr ([], mk1))"
  have "\<exists>nm mk2. rn = Inr (nm, mk2) \<and> (\<forall>m \<in> set nm. span_is_value text m) \<and>
      (default_strategy mk1 \<noteq> TOKENIZE \<longrightarrow> mk2 = mk1) \<and>
      default_strategy mk2 = default_strategy mk1"
    using names_loop_returns [of hexdigest "enable_context_validation det" "text"
        "py_split text" 0 "[]" mk1]
    by (simp add: rn_def detect_names_def)
  then obtain nm mk2 where n: "rn = Inr (nm, mk2)"
    and n_span: "\<forall>m \<in> set nm. span_is_value text m"
    and n_keep: "default_strategy mk1 \<noteq> TOKENIZE \<longrightarrow> mk2 = mk1"
    and n_dflt: "default_strategy mk2 = default_strategy mk1"
    by blast
  define ra where "ra = (if requested pii_types ADDRESS
      then detect_addresses hexdigest det text mk2 else Inr ([], mk2))"
  have "\<exists>am mk3. ra = Inr (am, mk3) \<and> (\<forall>m \<in> set am. span_is_value text m) \<and>
      (default_strategy mk2 \<noteq> TOKENIZE \<longrightarrow> mk3 = mk2) \<and>
      default_strategy mk3 = default_strategy mk2"
    using scan_addresses_returns [of hexdigest "enable_context_validation det" "text"
        "finditer address_pattern True text" "[]" mk2]
    by (auto simp: ra_def detect_addresses_def)
  then obtain am mk3 where a: "ra = Inr (am, mk3)"
    and a_span: "\<forall>m \<in> set am. span_is_value text m"
    and a_keep: "default_strategy mk2 \<noteq> TOKENIZE \<longrightarrow> mk3 = mk2"
    and a_dflt: "default_strategy mk3 = default_strategy mk2"
    by blast
  have eq: "collect_matches hexdigest det text pii_types = Inr (pm @ nm @ am, mk3)"
    using p n a by (simp add: collect_matches_def rn_def [symmetric] ra_def [symmetric])
  have keep: "mk3 = masker det" if "\<not> tokenizes det"
    using not_tokenizes [OF that] p_keep p_dflt n_keep n_dflt a_keep by auto
  have "default_strategy mk3 = default_strategy (masker det)"
    using p_dflt n_dflt a_dflt by simp
  with eq p_span n_span a_span keep show ?thesis by auto
qed

lemma detect_all_returns:
  "\<exists>cands mk'.
     (\<forall>thr. detect_all hexdigest det text thr pii_types =
        Inr (resolve_overlaps (filter (\<lambda>m. thr \<le> confidence m) cands),
             det\<lparr>masker := mk',
                 statistics := record_statistics (statistics det)
                   (resolve_overlaps (filter (\<lambda>m. thr \<le> confidence m) cands))\<rparr>)) \<and>
     collect_matches hexdigest det text pii_types = Inr (cands, mk') \<and>
     (\<forall>m \<in> set cands. span_is_value text m) \<and>
     (\<not> tokenizes det \<longrightarrow> mk' = masker det) \<and>
     default_strategy mk' = default_strategy (masker det)"
  using collect_matches_returns [of hexdigest det "text" pii_types]
  by (auto simp: detect_all_collect)

section \<open>Auxiliary facts about the validators and the configuration\<close>

lemma luhn_rounds_sum:
  "foldl luhn_round a (enumerate k xs) =
     a + sum_list (map (\<lambda>i. luhn_term (k + i) (xs ! i)) [0 ..< length xs])"
proof (induction xs arbitrary: a k)
  case Nil
  then show ?case by simp
next
  case (Cons x xs)
  have r: "luhn_round a (k, x) = a + luhn_term k x"
    by (auto simp: luhn_round_def luhn_term_def Let_def odd_iff_mod_2_eq_one)
  have "[0 ..< length (x # xs)] = 0 # map Suc [0 ..< length xs]"
    by (simp add: upt_conv_Cons map_Suc_upt del: upt_Suc)
  then have "sum_list (map (\<lambda>i. luhn_term (k + i) ((x # xs) ! i)) [0 ..< length (x # xs)]) =
      luhn_term k x + sum_list (map (\<lambda>i. luhn_term (Suc k + i) (xs ! i)) [0 ..< length xs])"
    by (simp add: comp_def del: upt_Suc)
  with Cons.IH [of "a + luhn_term k x" "Suc k"] r show ?case
    by (simp del: upt_Suc)
qed

lemma day_month_ok_all:
  "day_month_ok parts = list_all (\<lambda>p. length p \<le> 2 \<longrightarrow> parses_within 1 31 p) parts"
  by (induction parts) (auto simp: parses_within_def split: option.splits)

lemma find_of_filter:
  "filter P xs \<noteq> [] \<Longrightarrow> \<exists>y. find P xs = Some y \<and> y \<in> set xs \<and> P y"
  by (induction xs) auto

lemma set_all_strategies_apply:
  "foldl (\<lambda>m t. m(t \<mapsto> s)) strategies ts t' = (if t' \<in> set ts then Some s else strategies t')"
  by (induction ts arbitrary: strategies) auto

section \<open>Properties of detection, validation and masking\<close>

text \<open>
  C1. For every text, threshold and type filter, \<open>detect_all\<close> returns, and the matches
  it returns are pairwise non-overlapping (the half-open spans of two matches at
  different positions of the list are disjoint) and ascending by start.
\<close>

theorem detect_all_non_overlapping_sorted:
  "\<exists>ms det'. detect_all hexdigest det text thr pii_types = Inr (ms, det') \<and>
     non_overlapping ms \<and> sorted_by_start ms"
proof -
  obtain cands mk' where
    "detect_all hexdigest det text thr pii_types =
       Inr (resolve_overlaps (filter (\<lambda>m. thr \<le> confidence m) cands),
            det\<lparr>masker := mk',
                statistics := record_statistics (statistics det)
                  (resolve_overlaps (filter (\<lambda>m. thr \<le> confidence m) cands))\<rparr>)"
    using detect_all_returns [of hexdigest det "text" pii_types] by blast
  moreover have "non_overlapping (resolve_overlaps (filter (\<lambda>m. thr \<le> confidence m) cands)) \<and>
      sorted_by_start (resolve_overlaps (filter (\<lambda>m. thr \<le> confidence m) cands))"
    by (rule sel_inv_non_overlapping) (rule resolve_overlaps_inv)
  ultimately show ?thesis by blast
qed

theorem detect_all_non_overlapping_sorted_witness:
  "\<exists>ms det'. detect_all id (PIIDetector_init True True False) ''555-123-4567 a@b.co'' (1 / 2)
       (Some [PHONE, EMAIL]) = Inr (ms, det') \<and>
     map (\<lambda>m. (m_start m, m_end m)) ms = [(0, 12), (13, 19)] \<and>
     non_overlapping ms \<and> sorted_by_start ms"
proof -
  have e: "map_sum id (map (\<lambda>m. (m_start m, m_end m)) \<circ> fst)
      (detect_all id (PIIDetector_init True True False) ''555-123-4567 a@b.co'' (1 / 2)
         (Some [PHONE, EMAIL])) = Inr [(0, 12), (13, 19)]"
    by code_simp
  from detect_all_non_overlapping_sorted [of id "PIIDetector_init True True False"
      "''555-123-4567 a@b.co''" "1 / 2" "Some [PHONE, EMAIL]"]
  obtain ms det' where
    "detect_all id (PIIDetector_init True True False) ''555-123-4567 a@b.co'' (1 / 2)
       (Some [PHONE, EMAIL]) = Inr (ms, det')"
    and "non_overlapping ms \<and> sorted_by_start ms"
    by blast
  with e show ?thesis by auto
qed

text \<open>
  C2. For every text and threshold, \<open>detect_all\<close> returns, and every match it returns
  satisfies \<open>text[start:end] == value\<close>.
\<close>

theorem detect_all_span_is_value:
  "\<exists>ms det'. detect_all hexdigest det text thr pii_types = Inr (ms, det') \<and>
     (\<forall>m \<in> set ms. py_slice text (m_start m) (m_end m) = m_value m)"
proof -
  obtain cands mk' where
    d: "detect_all hexdigest det text thr pii_types =
       Inr (resolve_overlaps (filter (\<lambda>m. thr \<le> confidence m) cands),
            det\<lparr>masker := mk',
                statistics := record_statistics (statistics det)
                  (resolve_overlaps (filter (\<lambda>m. thr \<le> confidence m) cands))\<rparr>)"
    and c: "\<forall>m \<in> set cands. span_is_value text m"
    using detect_all_returns [of hexdigest det "text" pii_types] by blast
  have "set (resolve_overlaps (filter (\<lambda>m. thr \<le> confidence m) cands)) \<subseteq> set cands"
    using set_resolve_overlaps [of "filter (\<lambda>m. thr \<le> confidence m) cands"] by auto
  with c have "\<forall>m \<in> set (resolve_overlaps (filter (\<lambda>m. thr \<le> confidence m) cands)).
      py_slice text (m_start m) (m_end m) = m_value m"
    by (auto simp: span_is_value_def)
  with d show ?thesis by blast
qed

theorem detect_all_span_is_value_witness:
  "\<exists>ms det'. detect_all id (PIIDetector_init True True False) ''Dr. Jane Doe met Dr. Jane Doe''
       (1 / 2) (Some [PERSON_NAME]) = Inr (ms, det') \<and>
     map (\<lambda>m. (m_value m, m_start m, m_end m)) ms = [(''Dr. Jane Doe'', 0, 12)] \<and>
     (\<forall>m \<in> set ms. py_slice ''Dr. Jane Doe met Dr. Jane Doe'' (m_start m) (m_end m) = m_value m)"
proof -
  have e: "map_sum id (map (\<lambda>m. (m_value m, m_start m, m_end m)) \<circ> fst)
      (detect_all id (PIIDetector_init True True False) ''Dr. Jane Doe met Dr. Jane Doe''
         (1 / 2) (Some [PERSON_NAME])) = Inr [(''Dr. Jane Doe'', 0, 12)]"
    by code_simp
  from detect_all_span_is_value [of id "PIIDetector_init True True False"
      "''Dr. Jane Doe met Dr. Jane Doe''" "1 / 2" "Some [PERSON_NAME]"]
  obtain ms det' where
    "detect_all id (PIIDetector_init True True False) ''Dr. Jane Doe met Dr. Jane Doe''
       (1 / 2) (Some [PERSON_NAME]) = Inr (ms, det')"
    and "\<forall>m \<in> set ms. py_slice ''Dr. Jane Doe met Dr. Jane Doe'' (m_start m) (m_end m) = m_value m"
    by blast
  with e show ?thesis by auto
qed

text \<open>
  C4. For every text, type filter and thresholds \<open>t1 \<le> t2\<close>, both calls of \<open>detect_all\<close>
  on the same detector return, and the call with \<open>t2\<close> returns no more matches than the
  call with \<open>t1\<close>.
\<close>

theorem detect_all_threshold_monotone:
  assumes "t1 \<le> t2"
  shows "\<exists>ms1 det1 ms2 det2.
     detect_all hexdigest det text t1 pii_types = Inr (ms1, det1) \<and>
     detect_all hexdigest det text t2 pii_types = Inr (ms2, det2) \<and>
     length ms2 \<le> length ms1"
proof -
  obtain cands mk' where
    d: "\<forall>thr. detect_all hexdigest det text thr pii_types =
       Inr (resolve_overlaps (filter (\<lambda>m. thr \<le> confidence m) cands),
            det\<lparr>masker := mk',
                statistics := record_statistics (statistics det)
                  (resolve_overlaps (filter (\<lambda>m. thr \<le> confidence m) cands))\<rparr>)"
    using detect_all_returns [of hexdigest det "text" pii_types] by blast
  have "filter (\<lambda>m. t2 \<le> confidence m) cands =
      filter (\<lambda>m. t2 \<le> confidence m) (filter (\<lambda>m. t1 \<le> confidence m) cands)"
    using assms by (auto intro: filter_cong)
  then have "resolve_overlaps (filter (\<lambda>m. t2 \<le> confidence m) cands) =
      filter (\<lambda>m. t2 \<le> confidence m) (resolve_overlaps (filter (\<lambda>m. t1 \<le> confidence m) cands))"
    by (simp only: resolve_overlaps_filter)
  then have "length (resolve_overlaps (filter (\<lambda>m. t2 \<le> confidence m) cands)) \<le>
      length (resolve_overlaps (filter (\<lambda>m. t1 \<le> confidence m) cands))"
    by simp
  with d show ?thesis by blast
qed

theorem detect_all_threshold_monotone_witness:
  "(1 / 2 :: rat) \<le> 9 / 10 \<and>
   (\<exists>ms1 det1 ms2 det2.
     detect_all id (PIIDetector_init True True False) ''555-123-4567 a@b.co'' (1 / 2)
       (Some [PHONE, EMAIL]) = Inr (ms1, det1) \<and>
     detect_all id (PIIDetector_init True True False) ''555-123-4567 a@b.co'' (9 / 10)
       (Some [PHONE, EMAIL]) = Inr (ms2, det2) \<and>
     length ms1 = 2 \<and> length ms2 = 1 \<and> length ms2 \<le> length ms1)"
proof -
  have h: "(1 / 2 :: rat) \<le> 9 / 10" by simp
  have e1: "map_sum id (length \<circ> fst)
      (detect_all id (PIIDetector_init True True False) ''555-123-4567 a@b.co'' (1 / 2)
         (Some [PHONE, EMAIL])) = Inr 2"
    by code_simp
  have e2: "map_sum id (length \<circ> fst)
      (detect_all id (PIIDetector_init True True False) ''555-123-4567 a@b.co'' (9 / 10)
         (Some [PHONE, EMAIL])) = Inr 1"
    by code_simp
  from detect_all_threshold_monotone [OF h, of id "PIIDetector_init True True False"
      "''555-123-4567 a@b.co''" "Some [PHONE, EMAIL]"]
  obtain ms1 det1 ms2 det2 where
    "detect_all id (PIIDetector_init True True False) ''555-123-4567 a@b.co'' (1 / 2)
       (Some [PHONE, EMAIL]) = Inr (ms1, det1)"
    and "detect_all id (PIIDetector_init True True False) ''555-123-4567 a@b.co'' (9 / 10)
       (Some [PHONE, EMAIL]) = Inr (ms2, det2)"
    and "length ms2 \<le> length ms1"
    by blast
  with h e1 e2 show ?thesis by auto
qed

text \<open>
  C3. As stated, the property fails: with the strategy of EMAIL set to TOKENIZE, two calls in
  succession with the same arguments return matches whose masked values differ, since
  the token counter of the masker advances with every token.
\<close>

theorem detect_all_tokenize_counterexample:
  "successive_calls id (set_masking_strategy (PIIDetector_init True True False) EMAIL TOKENIZE)
     ''a@b.co'' (7 / 10) (Some [EMAIL]) =
   Inr ([\<lparr>pii_type = ''EMAIL'', m_value = ''a@b.co'', m_start = 0, m_end = 6,
           confidence = 99 / 100, masked_value = ''[EMAIL_TOKEN_0001]'', m_context = None\<rparr>],
        [\<lparr>pii_type = ''EMAIL'', m_value = ''a@b.co'', m_start = 0, m_end = 6,
           confidence = 99 / 100, masked_value = ''[EMAIL_TOKEN_0002]'', m_context = None\<rparr>]) \<and>
   ''[EMAIL_TOKEN_0001]'' \<noteq> ''[EMAIL_TOKEN_0002]''"
  by code_simp

text \<open>
  C3, amended. For every detector that does not tokenize (TOKENIZE is neither the default
  of its masker nor the strategy of any PII type), two calls of \<open>detect_all\<close> in
  succession with the same text, threshold and type filter both return, and they return
  the same sequence of matches, masked values included.
\<close>

theorem detect_all_deterministic:
  assumes "\<not> tokenizes det"
  shows "\<exists>ms. successive_calls hexdigest det text thr pii_types = Inr (ms, ms)"
proof -
  obtain cands mk' where
    d: "\<forall>thr. detect_all hexdigest det text thr pii_types =
       Inr (resolve_overlaps (filter (\<lambda>m. thr \<le> confidence m) cands),
            det\<lparr>masker := mk',
                statistics := record_statistics (statistics det)
                  (resolve_overlaps (filter (\<lambda>m. thr \<le> confidence m) cands))\<rparr>)"
    and c: "collect_matches hexdigest det text pii_types = Inr (cands, mk')"
    and k: "\<not> tokenizes det \<longrightarrow> mk' = masker det"
    using detect_all_returns [of hexdigest det "text" pii_types] by blast
  define ms where "ms = resolve_overlaps (filter (\<lambda>m. thr \<le> confidence m) cands)"
  define det' where "det' = det\<lparr>statistics := record_statistics (statistics det) ms\<rparr>"
  from assms k have mk: "mk' = masker det" by simp
  have first: "detect_all hexdigest det text thr pii_types = Inr (ms, det')"
    using d by (simp add: ms_def det'_def mk)
  have "collect_matches hexdigest det' text pii_types = Inr (cands, mk')"
    using c by (simp add: det'_def collect_matches_statistics)
  then have "\<exists>det''. detect_all hexdigest det' text thr pii_types = Inr (ms, det'')"
    by (simp add: detect_all_collect ms_def)
  with first show ?thesis by (auto simp: successive_calls_def)
qed

theorem detect_all_deterministic_witness:
  "\<not> tokenizes (PIIDetector_init True True False) \<and>
   successive_calls id (PIIDetector_init True True False) ''a@b.co'' (7 / 10) (Some [EMAIL]) =
   Inr ([\<lparr>pii_type = ''EMAIL'', m_value = ''a@b.co'', m_start = 0, m_end = 6,
           confidence = 99 / 100, masked_value = ''***@b.co'', m_context = None\<rparr>],
        [\<lparr>pii_type = ''EMAIL'', m_value = ''a@b.co'', m_start = 0, m_end = 6,
           confidence = 99 / 100, masked_value = ''***@b.co'', m_context = None\<rparr>])"
proof -
  have h: "\<not> tokenizes (PIIDetector_init True True False)" by code_simp
  have e: "map_sum id fst (successive_calls id (PIIDetector_init True True False) ''a@b.co''
      (7 / 10) (Some [EMAIL])) =
    Inr [\<lparr>pii_type = ''EMAIL'', m_value = ''a@b.co'', m_start = 0, m_end = 6,
           confidence = 99 / 100, masked_value = ''***@b.co'', m_context = None\<rparr>]"
    by code_simp
  from detect_all_deterministic [OF h, of id "''a@b.co''" "7 / 10" "Some [EMAIL]"]
  obtain ms where "successive_calls id (PIIDetector_init True True False) ''a@b.co''
      (7 / 10) (Some [EMAIL]) = Inr (ms, ms)" ..
  with h e show ?thesis by auto
qed

text \<open>
  C5. As stated, the property fails on the e-mail address: the user name \<open>john\<close> has four
  characters, and a user name of at most four characters is masked to its first character
  and three asterisks, without the last character.
\<close>

theorem mask_partial_email_counterexample:
  "mask id (PIIMasker_init PARTIAL) ''john@example.com'' EMAIL (Some PARTIAL) \<noteq>
     Inr (''j***n@example.com'', PIIMasker_init PARTIAL)"
  by code_simp

text \<open>
  C5, amended. PARTIAL masking of the e-mail value \<open>john@example.com\<close> yields
  \<open>j***@example.com\<close>, and PARTIAL masking of the credit-card value
  \<open>4532-1488-0343-6467\<close> yields \<open>****-****-****-6467\<close>; the masker is left unchanged.
\<close>

theorem mask_partial_examples:
  "mask hexdigest mk ''john@example.com'' EMAIL (Some PARTIAL) = Inr (''j***@example.com'', mk) \<and>
   mask hexdigest mk ''4532-1488-0343-6467'' CREDIT_CARD (Some PARTIAL) =
     Inr (''****-****-****-6467'', mk)"
proof -
  have "mask_partial ''john@example.com'' EMAIL = Inr ''j***@example.com''" by code_simp
  moreover have "mask_partial ''4532-1488-0343-6467'' CREDIT_CARD = Inr ''****-****-****-6467''"
    by code_simp
  ultimately show ?thesis by (simp add: mask_def bind_e_def)
qed

theorem mask_partial_examples_witness:
  "mask id (PIIMasker_init TOKENIZE) ''john@example.com'' EMAIL (Some PARTIAL) =
     Inr (''j***@example.com'', PIIMasker_init TOKENIZE) \<and>
   mask id (PIIMasker_init TOKENIZE) ''4532-1488-0343-6467'' CREDIT_CARD (Some PARTIAL) =
     Inr (''****-****-****-6467'', PIIMasker_init TOKENIZE)"
  using mask_partial_examples [of id "PIIMasker_init TOKENIZE"] .

text \<open>
  C6. As stated, the property fails on its example: the Luhn total of \<open>4532148803436467\<close> is
  73, so the validator rejects it.
\<close>

theorem validate_credit_card_counterexample:
  "validate_credit_card ''4532148803436467'' = Inr False"
  by code_simp

text \<open>
  C6, amended. On every string whose digits are decimal (every character that
  \<open>str.isdigit\<close> accepts is one of 0 to 9, as in every ASCII string) the credit-card
  validator returns, and it is the Luhn check of the specification: non-digits are
  dropped, a digit count outside 13 to 19 is rejected, and otherwise the number is
  accepted iff the Luhn total is a multiple of ten. It rejects both \<open>4532148803436467\<close>
  and \<open>4532148803436468\<close>, and accepts \<open>4532015112830366\<close>.
\<close>

theorem validate_credit_card_luhn:
  "(digits_decimal s \<longrightarrow> validate_credit_card s = Inr (luhn_spec s)) \<and>
   validate_credit_card ''4532148803436467'' = Inr False \<and>
   validate_credit_card ''4532148803436468'' = Inr False \<and>
   validate_credit_card ''4532015112830366'' = Inr True"
proof -
  have "validate_credit_card s = Inr (luhn_spec s)" if "digits_decimal s"
    by (simp add: validate_credit_card_returns [OF that] luhn_spec_def Let_def luhn_rounds_sum
        rev_map)
  moreover have "validate_credit_card ''4532148803436467'' = Inr False" by code_simp
  moreover have "validate_credit_card ''4532148803436468'' = Inr False" by code_simp
  moreover have "validate_credit_card ''4532015112830366'' = Inr True" by code_simp
  ultimately show ?thesis by simp
qed

theorem validate_credit_card_luhn_witness:
  "digits_decimal ''4111 1111 1111 1111'' \<and>
   validate_credit_card ''4111 1111 1111 1111'' = Inr (luhn_spec ''4111 1111 1111 1111'') \<and>
   luhn_spec ''4111 1111 1111 1111''"
proof -
  have h: "digits_decimal ''4111 1111 1111 1111''" by code_simp
  have "luhn_spec ''4111 1111 1111 1111''" by code_simp
  with h validate_credit_card_luhn [of "''4111 1111 1111 1111''"] show ?thesis by simp
qed

text \<open>
  C7. As stated, the property fails: the validator accepts \<open>1990/2000/12\<close>, in which two parts
  have length four, and \<open>1990/123/12\<close>, in which a part that is not the year has length
  three. It takes the first part of length four as the year and checks only the parts of
  length at most two.
\<close>

theorem validate_date_of_birth_counterexample:
  "validate_date_of_birth ''1990/2000/12'' \<and> \<not> dob_exactly_one_year ''1990/2000/12'' \<and>
   validate_date_of_birth ''1990/123/12'' \<and> \<not> dob_exactly_one_year ''1990/123/12''"
  by code_simp

text \<open>
  C7, amended. The date-of-birth validator accepts a string iff splitting it on \<open>/\<close> or
  \<open>-\<close> yields exactly three parts, some part has length four and the first such part,
  taken as the year, lies in 1900 to 2025, and every part of length at most two parses
  as an integer in 1 to 31; parts of any other length are not examined. Every string
  with exactly one part of length four that meets the stricter reading is accepted.
\<close>

theorem validate_date_of_birth_first_year:
  "validate_date_of_birth dob = dob_first_year dob \<and>
   (dob_exactly_one_year dob \<longrightarrow> validate_date_of_birth dob)"
proof -
  have eq: "validate_date_of_birth dob = dob_first_year dob"
    by (auto simp: validate_date_of_birth_def dob_first_year_def dob_parts_def Let_def
        day_month_ok_all parses_within_def split: option.splits)
  have "dob_first_year dob" if one: "dob_exactly_one_year dob"
  proof -
    define parts where "parts = dob_parts dob"
    from one have len: "length parts = 3"
      and cnt: "length (filter (\<lambda>p. length p = 4) parts) = 1"
      and all: "\<forall>p \<in> set parts. if length p = 4 then parses_within 1900 2025 p
          else length p \<le> 2 \<and> parses_within 1 31 p"
      by (simp_all add: dob_exactly_one_year_def Let_def parts_def list_all_iff)
    from cnt have "filter (\<lambda>p. length p = 4) parts \<noteq> []" by auto
    from find_of_filter [OF this] obtain y where
      y: "find (\<lambda>p. length p = 4) parts = Some y" "y \<in> set parts" "length y = 4"
      by blast
    with all have "parses_within 1900 2025 y" by auto
    moreover from all have "\<forall>p \<in> set parts. length p \<le> 2 \<longrightarrow> parses_within 1 31 p"
      by auto
    ultimately show ?thesis using len y
      by (simp add: dob_first_year_def Let_def parts_def [symmetric] list_all_iff)
  qed
  with eq show ?thesis by simp
qed

theorem validate_date_of_birth_first_year_witness:
  "dob_exactly_one_year ''05/15/1985'' \<and> validate_date_of_birth ''05/15/1985'' \<and>
   dob_first_year ''05/15/1985''"
proof -
  have "dob_exactly_one_year ''05/15/1985''" by code_simp
  with validate_date_of_birth_first_year [of "''05/15/1985''"] show ?thesis by blast
qed



text \<open>
  C9. With an empty list of PII types, no pattern is skipped, so pattern-based scanning is
  the same as with no type filter at all, while PERSON_NAME and ADDRESS are not requested:
  \<open>detect_all\<close> resolves the pattern-based matches alone, and name detection and address
  detection are not run.
\<close>

theorem detect_all_empty_filter:
  "\<not> skipped (Some []) t \<and>
   detect_pattern_based hexdigest det text (Some []) = detect_pattern_based hexdigest det text None \<and>
   \<not> requested (Some []) PERSON_NAME \<and> \<not> requested (Some []) ADDRESS \<and>
   detect_all hexdigest det text thr (Some []) =
     (case detect_pattern_based hexdigest det text None of
        Inl err \<Rightarrow> Inl err
      | Inr (pattern_matches, mk) \<Rightarrow>
          Inr (resolve_overlaps (filter (\<lambda>m. thr \<le> confidence m) pattern_matches),
               det\<lparr>masker := mk,
                   statistics := record_statistics (statistics det)
                     (resolve_overlaps (filter (\<lambda>m. thr \<le> confidence m) pattern_matches))\<rparr>))"
proof -
  have s: "skipped (Some []) = skipped None"
    by (intro ext) (simp add: skipped_def)
  have "scan_patterns hexdigest ctx strict cfg text (Some []) ps acc =
      scan_patterns hexdigest ctx strict cfg text None ps acc" for ctx strict cfg ps acc
    by (induction ps arbitrary: acc) (simp_all add: s split: sum.splits)
  then have p: "detect_pattern_based hexdigest det text (Some []) =
      detect_pattern_based hexdigest det text None"
    by (simp add: detect_pattern_based_def)
  have r: "\<not> requested (Some []) PERSON_NAME" "\<not> requested (Some []) ADDRESS"
    by (simp_all add: requested_def)
  have "detect_all hexdigest det text thr (Some []) =
     (case detect_pattern_based hexdigest det text None of
        Inl err \<Rightarrow> Inl err
      | Inr (pattern_matches, mk) \<Rightarrow>
          Inr (resolve_overlaps (filter (\<lambda>m. thr \<le> confidence m) pattern_matches),
               det\<lparr>masker := mk,
                   statistics := record_statistics (statistics det)
                     (resolve_overlaps (filter (\<lambda>m. thr \<le> confidence m) pattern_matches))\<rparr>))"
    by (simp add: detect_all_def p r Let_def split: sum.splits prod.splits)
  with p r show ?thesis by (simp add: skipped_def)
qed

theorem detect_all_empty_filter_witness:
  "map_sum id (map pii_type \<circ> fst)
     (detect_all id (PIIDetector_init True True False) ''Amy Poe a@b.co 12 Oak Rd'' (1 / 2) (Some [])) =
     Inr [''EMAIL''] \<and>
   map_sum id (map pii_type \<circ> fst)
     (detect_all id (PIIDetector_init True True False) ''Amy Poe a@b.co 12 Oak Rd'' (1 / 2) None) =
     Inr [''PERSON_NAME'', ''EMAIL'', ''ADDRESS''] \<and>
   map_sum id (map pii_type \<circ> fst)
     (detect_all id (PIIDetector_init True True False) ''Amy Poe a@b.co 12 Oak Rd'' (1 / 2)
        (Some [PHONE])) = Inr []"
proof -
  have e: "map_sum id (map pii_type \<circ> fst) (case detect_pattern_based id
        (PIIDetector_init True True False) ''Amy Poe a@b.co 12 Oak Rd'' None of
      Inl err \<Rightarrow> Inl err
    | Inr (pattern_matches, mk) \<Rightarrow>
        Inr (resolve_overlaps (filter (\<lambda>m. 1 / 2 \<le> confidence m) pattern_matches),
             (PIIDetector_init True True False)\<lparr>masker := mk,
                 statistics := record_statistics (statistics (PIIDetector_init True True False))
                   (resolve_overlaps (filter (\<lambda>m. 1 / 2 \<le> confidence m) pattern_matches))\<rparr>)) =
      Inr [''EMAIL'']"
    by code_simp
  have n: "map_sum id (map pii_type \<circ> fst)
     (detect_all id (PIIDetector_init True True False) ''Amy Poe a@b.co 12 Oak Rd'' (1 / 2) None) =
     Inr [''PERSON_NAME'', ''EMAIL'', ''ADDRESS'']"
    by code_simp
  have ph: "map_sum id (map pii_type \<circ> fst)
     (detect_all id (PIIDetector_init True True False) ''Amy Poe a@b.co 12 Oak Rd'' (1 / 2)
        (Some [PHONE])) = Inr []"
    by code_simp
  from detect_all_empty_filter [of EMAIL id "PIIDetector_init True True False"
      "''Amy Poe a@b.co 12 Oak Rd''" "1 / 2"] e n ph
  show ?thesis by simp
qed

text \<open>
  C10. \<open>set_masking_strategy\<close> for a type \<open>t\<close> makes \<open>get_strategy\<close> answer the new strategy
  for \<open>t\<close>, leaves the answer for every other type as it was, and changes nothing else in
  the detector; \<open>set_all_masking_strategies\<close> makes \<open>get_strategy\<close> answer the new strategy
  for every PII type.
\<close>

theorem set_masking_strategy_frame:
  "get_strategy (masking_config (set_masking_strategy det t s)) t = s \<and>
   (t' \<noteq> t \<longrightarrow>
      get_strategy (masking_config (set_masking_strategy det t s)) t' =
      get_strategy (masking_config det) t') \<and>
   masker (set_masking_strategy det t s) = masker det \<and>
   enable_context_validation (set_masking_strategy det t s) = enable_context_validation det \<and>
   enable_strict_validation (set_masking_strategy det t s) = enable_strict_validation det \<and>
   statistics (set_masking_strategy det t s) = statistics det \<and>
   get_strategy (masking_config (set_all_masking_strategies det s')) t' = s'"
  using all_pii_types_complete [of t']
  by (simp add: set_masking_strategy_def set_all_masking_strategies_def set_strategy_def
      set_all_strategies_def get_strategy_def set_all_strategies_apply)

theorem set_masking_strategy_frame_witness:
  "get_strategy (masking_config (set_masking_strategy (PIIDetector_init True True False) EMAIL HASH))
     EMAIL = HASH \<and>
   SSN \<noteq> EMAIL \<and>
   get_strategy (masking_config (set_masking_strategy (PIIDetector_init True True False) EMAIL HASH))
     SSN = PARTIAL \<and>
   get_strategy (masking_config (PIIDetector_init True True False)) SSN = PARTIAL \<and>
   get_strategy (masking_config (set_all_masking_strategies (PIIDetector_init True True False) REDACT))
     SSN = REDACT"
proof -
  have h: "SSN \<noteq> EMAIL" by simp
  have p: "get_strategy (masking_config (PIIDetector_init True True False)) SSN = PARTIAL"
    by code_simp
  from set_masking_strategy_frame [where det = "PIIDetector_init True True False" and t = EMAIL
      and s = HASH and t' = SSN and s' = REDACT] h p
  show ?thesis by simp
qed


end
